theory Spec2Isabelle
  imports Complex_Main "HOL-Library.Multiset"
begin

section \<open>Data model\<close>

text \<open>
  The aggregators of \<^verbatim>\<open>app.py\<close> read JSON objects (Python dicts). A key read
  with \<^verbatim>\<open>d.get(k)\<close> may be absent and then yields \<^verbatim>\<open>None\<close>; a key read with
  \<^verbatim>\<open>d[k]\<close> raises \<^verbatim>\<open>KeyError\<close> when absent. Every key is therefore an
  optional field, and the exceptions of the source are values of \<open>py_error\<close>.
\<close>

datatype py_error = KeyError string | AttributeError | ZeroDivisionError

record problem =
  contestId :: "int option"
  index :: "string option"
  rating :: "int option"
  tags :: "string list option"

record submission =
  problem :: "problem option"
  verdict :: "string option"

type_synonym problem_id = "int option \<times> string option"

section \<open>Python floats\<close>

text \<open>
  A Python float is an IEEE 754 binary64 number. A finite float is represented by the
  rational number it denotes; an arithmetic operation computes the exact result and
  rounds it to the nearest binary64 number, ties to the even significand. The values
  of this program lie between 0 and 100, far from overflow.
\<close>

type_synonym pyfloat = rat

text \<open>The integer logarithm \<open>\<lfloor>log\<^sub>2 n\<rfloor>\<close> of a positive natural number.\<close>

fun log2_nat :: "nat \<Rightarrow> nat" where
  "log2_nat n = (if n < 2 then 0 else Suc (log2_nat (n div 2)))"

declare log2_nat.simps [simp del]

text \<open>\<open>\<lfloor>log\<^sub>2 x\<rfloor>\<close> for a positive rational: the binary exponent of \<open>x\<close>.\<close>

definition ilog2 :: "rat \<Rightarrow> int" where
  "ilog2 x =
     (if 1 \<le> x then int (log2_nat (nat \<lfloor>x\<rfloor>))
      else - int (Suc (log2_nat (nat (\<lceil>1 / x\<rceil> - 1)))))"

definition round_half_even :: "rat \<Rightarrow> int" where
  "round_half_even x =
     (let f = \<lfloor>x\<rfloor>; d = x - of_int f
      in if d < 1 / 2 then f else if 1 / 2 < d then f + 1 else if even f then f else f + 1)"

text \<open>
  Rounding to binary64: 53 significant bits, the exponent not below that of the
  subnormal numbers (\<open>-1022\<close>).
\<close>

definition fl :: "rat \<Rightarrow> pyfloat" where
  "fl x =
     (if x = 0 then 0
      else (let q = 2 powi (max (ilog2 \<bar>x\<bar>) (- 1022) - 52)
            in of_int (round_half_even (x / q)) * q))"

text \<open>\<^verbatim>\<open>a / b\<close> on two ints is the correctly rounded quotient (for \<open>b \<noteq> 0\<close>).\<close>

definition int_truediv :: "int \<Rightarrow> int \<Rightarrow> pyfloat" where
  "int_truediv a b = fl (of_int a / of_int b)"

text \<open>An int operand of a float operation is converted to float first.\<close>

definition float_of_int :: "int \<Rightarrow> pyfloat" where
  "float_of_int i = fl (of_int i)"

definition float_mul :: "pyfloat \<Rightarrow> pyfloat \<Rightarrow> pyfloat" where
  "float_mul x y = fl (x * y)"

definition float_sub :: "pyfloat \<Rightarrow> pyfloat \<Rightarrow> pyfloat" where
  "float_sub x y = fl (x - y)"

text \<open>
  \<^verbatim>\<open>round(x, ndigits)\<close> on a float, for \<open>ndigits \<ge> 0\<close>: the exact value of \<open>x\<close> is
  rounded to \<open>ndigits\<close> decimal places, ties to the even digit, and the decimal
  result is converted back to the nearest float.
\<close>

definition py_round :: "pyfloat \<Rightarrow> nat \<Rightarrow> pyfloat" where
  "py_round x ndigits = fl (of_int (round_half_even (x * 10 ^ ndigits)) / 10 ^ ndigits)"

section \<open>Counters and insertion-ordered dictionaries\<close>

text \<open>
  \<^verbatim>\<open>Counter\<close>, \<^verbatim>\<open>defaultdict(int)\<close> and \<^verbatim>\<open>dict\<close> keep their keys in
  insertion order, each key once: association lists. \<^verbatim>\<open>c[k] += 1\<close> on a counter
  adds the key with count 1 when it is missing.
\<close>

fun counter_inc :: "'k \<Rightarrow> ('k \<times> nat) list \<Rightarrow> ('k \<times> nat) list" where
  "counter_inc k [] = [(k, 1)]"
| "counter_inc k ((k', c) # kvs) =
     (if k' = k then (k', c + 1) # kvs else (k', c) # counter_inc k kvs)"

definition counter_get :: "('k \<times> nat) list \<Rightarrow> 'k \<Rightarrow> nat" where
  "counter_get kvs k = (case map_of kvs k of None \<Rightarrow> 0 | Some c \<Rightarrow> c)"

section \<open>calculate_stats\<close>

text \<open>The local variables that the first loop of \<^verbatim>\<open>calculate_stats\<close> updates.\<close>

record stats_vars =
  accepted_count' :: nat
  wrong_answer_count' :: nat
  verdict_counter' :: "(string \<times> nat) list"
  attempted_problems' :: "problem_id set"
  solved_problems' :: "problem_id set"
  first_attempt_solved' :: "problem_id set"
  problem_first_submission' :: "problem_id \<rightharpoonup> string"
  contests_participated' :: "int option set"
  difficulty_solved' :: "(int \<times> nat) list"
  topic_solved' :: "(string \<times> nat) list"

definition init_vars :: stats_vars where
  "init_vars = \<lparr>accepted_count' = 0, wrong_answer_count' = 0, verdict_counter' = [],
     attempted_problems' = {}, solved_problems' = {}, first_attempt_solved' = {},
     problem_first_submission' = Map.empty, contests_participated' = {},
     difficulty_solved' = [], topic_solved' = []\<rparr>"

text \<open>\<^verbatim>\<open>sub.get('verdict', 'UNKNOWN')\<close>\<close>

definition get_verdict :: "submission \<Rightarrow> string" where
  "get_verdict sub = (case verdict sub of None \<Rightarrow> ''UNKNOWN'' | Some v \<Rightarrow> v)"

text \<open>\<^verbatim>\<open>(problem.get('contestId'), problem.get('index'))\<close>\<close>

definition get_problem_id :: "problem \<Rightarrow> problem_id" where
  "get_problem_id p = (contestId p, index p)"

text \<open>
  \<^verbatim>\<open>if problem_id not in problem_first_submission:
       problem_first_submission[problem_id] = verdict\<close>,
  followed in the accepted branch by \<^verbatim>\<open>first_attempt_solved.add(problem_id)\<close>.
\<close>

definition record_first :: "problem_id \<Rightarrow> string \<Rightarrow> bool \<Rightarrow> stats_vars \<Rightarrow> stats_vars" where
  "record_first pid v ok st =
     (if problem_first_submission' st pid = None
      then st\<lparr>problem_first_submission' := (problem_first_submission' st)(pid \<mapsto> v),
              first_attempt_solved' :=
                (if ok then insert pid (first_attempt_solved' st) else first_attempt_solved' st)\<rparr>
      else st)"

text \<open>
  \<^verbatim>\<open>if rating: difficulty_solved[rating] += 1\<close>: Python's truth test is false
  for \<^verbatim>\<open>None\<close> and for 0.
\<close>

definition add_difficulty :: "int option \<Rightarrow> (int \<times> nat) list \<Rightarrow> (int \<times> nat) list" where
  "add_difficulty r ds =
     (case r of None \<Rightarrow> ds | Some n \<Rightarrow> if n \<noteq> 0 then counter_inc n ds else ds)"

text \<open>\<^verbatim>\<open>for tag in problem.get('tags', []): topic_solved[tag] += 1\<close>\<close>

definition add_topics :: "string list option \<Rightarrow> (string \<times> nat) list \<Rightarrow> (string \<times> nat) list" where
  "add_topics ts tp = fold counter_inc (case ts of None \<Rightarrow> [] | Some l \<Rightarrow> l) tp"

text \<open>The body of the first loop, lines 78 to 104.\<close>

definition stats_body :: "submission \<Rightarrow> stats_vars \<Rightarrow> py_error + stats_vars" where
  "stats_body sub st =
     (case problem sub of
        None \<Rightarrow> Inl (KeyError ''problem'')
      | Some p \<Rightarrow>
          (let problem_id = get_problem_id p;
               v = get_verdict sub;
               st1 = st\<lparr>attempted_problems' := insert problem_id (attempted_problems' st),
                        contests_participated' := insert (contestId p) (contests_participated' st),
                        verdict_counter' := counter_inc v (verdict_counter' st)\<rparr>
           in if v = ''OK'' then
                (let st2 = st1\<lparr>accepted_count' := accepted_count' st1 + 1,
                               solved_problems' := insert problem_id (solved_problems' st1)\<rparr>;
                     st3 = record_first problem_id v True st2
                 in Inr (st3\<lparr>difficulty_solved' := add_difficulty (rating p) (difficulty_solved' st3),
                              topic_solved' := add_topics (tags p) (topic_solved' st3)\<rparr>))
              else
                (let st2 = (if v = ''WRONG_ANSWER''
                            then st1\<lparr>wrong_answer_count' := wrong_answer_count' st1 + 1\<rparr>
                            else st1)
                 in Inr (record_first problem_id v False st2))))"

fun stats_loop :: "submission list \<Rightarrow> stats_vars \<Rightarrow> py_error + stats_vars" where
  "stats_loop [] st = Inr st"
| "stats_loop (sub # subs) st =
     (case stats_body sub st of Inl e \<Rightarrow> Inl e | Inr st' \<Rightarrow> stats_loop subs st')"

text \<open>The second loop, lines 110 to 113: submissions per problem id.\<close>

fun attempts_loop ::
  "submission list \<Rightarrow> (problem_id \<times> nat) list \<Rightarrow> py_error + (problem_id \<times> nat) list" where
  "attempts_loop [] pa = Inr pa"
| "attempts_loop (sub # subs) pa =
     (case problem sub of
        None \<Rightarrow> Inl (KeyError ''problem'')
      | Some p \<Rightarrow> attempts_loop subs (counter_inc (get_problem_id p) pa))"

text \<open>\<^verbatim>\<open>max(problem_attempts.values()) if problem_attempts else 0\<close>\<close>

definition max_values :: "('k \<times> nat) list \<Rightarrow> nat" where
  "max_values pa = (if pa = [] then 0 else fold max (map snd pa) 0)"

text \<open>Python's \<^verbatim>\<open>str\<close> of an integer and of \<^verbatim>\<open>None\<close>, as the f-string formats them.\<close>

fun str_nat :: "nat \<Rightarrow> string" where
  "str_nat n =
     (if n < 10 then [''0123456789'' ! n]
      else str_nat (n div 10) @ [''0123456789'' ! (n mod 10)])"

definition str_int :: "int \<Rightarrow> string" where
  "str_int i = (if i < 0 then CHR ''-'' # str_nat (nat (- i)) else str_nat (nat i))"

definition format_problem :: "problem_id \<Rightarrow> string" where
  "format_problem pid =
     (case fst pid of None \<Rightarrow> ''None'' | Some c \<Rightarrow> str_int c) @ ''-'' @
     (case snd pid of None \<Rightarrow> ''None'' | Some i \<Rightarrow> i)"

text \<open>
  Line 108: \<^verbatim>\<open>round((unique_solved / unique_attempted) * 100, 2) if unique_attempted else 0.0\<close>
\<close>

definition solving_rate :: "nat \<Rightarrow> nat \<Rightarrow> pyfloat" where
  "solving_rate unique_solved unique_attempted =
     (if unique_attempted \<noteq> 0
      then py_round (float_mul (int_truediv (int unique_solved) (int unique_attempted))
                               (float_of_int 100)) 2
      else 0)"

text \<open>
  The rate as the specification words it, for comparison with the code's:
  \<^verbatim>\<open>round(100 * unique_solved / unique_attempted, 2)\<close> if
  \<^verbatim>\<open>unique_attempted > 0\<close>, else \<^verbatim>\<open>0.0\<close>. The product is an int, the quotient
  of two ints is rounded once.
\<close>

definition spec_solving_rate :: "nat \<Rightarrow> nat \<Rightarrow> pyfloat" where
  "spec_solving_rate unique_solved unique_attempted =
     (if unique_attempted > 0
      then py_round (int_truediv (100 * int unique_solved) (int unique_attempted)) 2
      else 0)"

record stats =
  total_submissions :: nat
  accepted_count :: nat
  wrong_answer_count :: nat
  unique_attempted :: nat
  unique_solved :: nat
  problem_solving_rate :: pyfloat
  contests_participated :: nat
  first_attempt_solved :: nat
  verdict_counter :: "(string \<times> nat) list"
  most_attempted_problems :: "string list"
  max_attempts :: nat
  difficulty_solved :: "(int \<times> nat) list"
  topic_solved :: "(string \<times> nat) list"

definition calculate_stats :: "submission list \<Rightarrow> py_error + stats" where
  "calculate_stats submissions =
     (case stats_loop submissions init_vars of
        Inl e \<Rightarrow> Inl e
      | Inr st \<Rightarrow>
          (let unique_attempted = card (attempted_problems' st);
               unique_solved = card (solved_problems' st);
               rate = solving_rate unique_solved unique_attempted
           in case attempts_loop submissions [] of
                Inl e \<Rightarrow> Inl e
              | Inr problem_attempts \<Rightarrow>
                  (let max_att = max_values problem_attempts;
                       most = map fst (filter (\<lambda>(pid, c). c = max_att) problem_attempts)
                   in Inr \<lparr>total_submissions = length submissions,
                           accepted_count = accepted_count' st,
                           wrong_answer_count = wrong_answer_count' st,
                           unique_attempted = unique_attempted,
                           unique_solved = unique_solved,
                           problem_solving_rate = rate,
                           contests_participated = card (contests_participated' st),
                           first_attempt_solved = card (first_attempt_solved' st),
                           verdict_counter = verdict_counter' st,
                           most_attempted_problems = map format_problem most,
                           max_attempts = max_att,
                           difficulty_solved = difficulty_solved' st,
                           topic_solved = topic_solved' st\<rparr>)))"

section \<open>analyze_contests\<close>

record rating_change =
  contestName :: "string option"
  rank :: "int option"
  newRating :: "int option"

text \<open>Python's \<^verbatim>\<open>needle in haystack\<close> on strings.\<close>

fun starts_with :: "string \<Rightarrow> string \<Rightarrow> bool" where
  "starts_with [] s = True"
| "starts_with (c # cs) [] = False"
| "starts_with (c # cs) (d # ds) = (c = d \<and> starts_with cs ds)"

fun str_contains :: "string \<Rightarrow> string \<Rightarrow> bool" where
  "str_contains needle [] = (needle = [])"
| "str_contains needle (c # cs) = (starts_with needle (c # cs) \<or> str_contains needle cs)"

text \<open>The \<^verbatim>\<open>if\<close>/\<^verbatim>\<open>elif\<close> chain of lines 150 to 158.\<close>

definition division :: "string \<Rightarrow> string" where
  "division contest_name =
     (if str_contains ''Div. 1'' contest_name then ''Div. 1''
      else if str_contains ''Div. 2'' contest_name then ''Div. 2''
      else if str_contains ''Div. 3'' contest_name then ''Div. 3''
      else ''Other'')"

text \<open>\<^verbatim>\<open>d[k] = v\<close> on a dict: the key keeps its place, a new key goes last.\<close>

fun dict_set :: "'k \<Rightarrow> 'v \<Rightarrow> ('k \<times> 'v) list \<Rightarrow> ('k \<times> 'v) list" where
  "dict_set k v [] = [(k, v)]"
| "dict_set k v ((k', v') # kvs) =
     (if k' = k then (k', v) # kvs else (k', v') # dict_set k v kvs)"

text \<open>
  The returned dict; \<^verbatim>\<open>best_rank_by_division\<close>, \<^verbatim>\<open>highest_rating\<close> and
  \<^verbatim>\<open>best_rank_overall\<close> are also the variables of the loop.
\<close>

record contest_stats =
  total_contests :: nat
  contests_skipped :: string
  best_rank_by_division :: "(string \<times> int) list"
  highest_rating :: int
  best_rank_overall :: "int option"

definition contests_body :: "rating_change \<Rightarrow> contest_stats \<Rightarrow> py_error + contest_stats" where
  "contests_body entry st =
     (case contestName entry of
        None \<Rightarrow> Inl (KeyError ''contestName'')
      | Some contest_name \<Rightarrow>
     (case rank entry of
        None \<Rightarrow> Inl (KeyError ''rank'')
      | Some rk \<Rightarrow>
     (case newRating entry of
        None \<Rightarrow> Inl (KeyError ''newRating'')
      | Some new_rating \<Rightarrow>
          (let st1 = st\<lparr>highest_rating := max (highest_rating st) new_rating\<rparr>;
               dv = division contest_name;
               st2 = (if (case map_of (best_rank_by_division st1) dv of
                            None \<Rightarrow> True | Some best \<Rightarrow> rk < best)
                      then st1\<lparr>best_rank_by_division :=
                                 dict_set dv rk (best_rank_by_division st1)\<rparr>
                      else st1)
           in Inr (if (case best_rank_overall st2 of None \<Rightarrow> True | Some best \<Rightarrow> rk < best)
                   then st2\<lparr>best_rank_overall := Some rk\<rparr>
                   else st2)))))"

fun contests_loop :: "rating_change list \<Rightarrow> contest_stats \<Rightarrow> py_error + contest_stats" where
  "contests_loop [] st = Inr st"
| "contests_loop (entry # entries) st =
     (case contests_body entry st of Inl e \<Rightarrow> Inl e | Inr st' \<Rightarrow> contests_loop entries st')"

definition analyze_contests :: "rating_change list \<Rightarrow> py_error + contest_stats" where
  "analyze_contests rating_changes =
     contests_loop rating_changes
       \<lparr>total_contests = length rating_changes, contests_skipped = ''Not Available'',
        best_rank_by_division = [], highest_rating = 0, best_rank_overall = None\<rparr>"

section \<open>get_user_global_country_rank\<close>

text \<open>
  A user object, as \<^verbatim>\<open>user.info\<close> and \<^verbatim>\<open>user.ratedList\<close> return it; only
  these two keys are read.
\<close>

record user =
  handle :: "string option"
  country :: "string option"

text \<open>
  \<^verbatim>\<open>str.lower()\<close> folds every cased letter of Unicode by the tables of the Python
  interpreter, which are not part of this program. The function is therefore a
  parameter \<open>lower\<close> of the model, and what is proved below holds for every function
  in its place.

  \<^verbatim>\<open>for i, u in enumerate(users):
       if u['handle'].lower() == handle.lower(): rank = i + 1; break\<close>.
  The left operand is evaluated first: a user without handle raises \<^verbatim>\<open>KeyError\<close>,
  then a target handle \<^verbatim>\<open>None\<close> raises \<^verbatim>\<open>AttributeError\<close>.
\<close>

fun rank_loop ::
  "(string \<Rightarrow> string) \<Rightarrow> string option \<Rightarrow> user list \<Rightarrow> nat \<Rightarrow> py_error + nat option" where
  "rank_loop lower h [] i = Inr None"
| "rank_loop lower h (u # us) i =
     (case handle u of
        None \<Rightarrow> Inl (KeyError ''handle'')
      | Some uh \<Rightarrow>
          (case h of
             None \<Rightarrow> Inl AttributeError
           | Some th \<Rightarrow>
               if lower uh = lower th then Inr (Some (i + 1))
               else rank_loop lower h us (i + 1)))"

text \<open>
  \<^verbatim>\<open>round(100 * (1 - (rank - 1) / n), 2) if rank else None\<close>: the truth test is
  false for \<^verbatim>\<open>None\<close> and for 0; the division raises when \<open>n\<close> is 0.
\<close>

definition percentile :: "nat option \<Rightarrow> nat \<Rightarrow> py_error + pyfloat option" where
  "percentile rk n =
     (case rk of
        None \<Rightarrow> Inr None
      | Some g \<Rightarrow>
          if g = 0 then Inr None
          else if n = 0 then Inl ZeroDivisionError
          else Inr (Some (py_round
                 (float_mul (float_of_int 100)
                    (float_sub (float_of_int 1) (int_truediv (int g - 1) (int n)))) 2)))"

record rank_stats =
  global_rank :: "nat option"
  global_percentile :: "pyfloat option"
  country_rank :: "nat option"
  country_percentile :: "pyfloat option"
  country :: "string option"

definition get_user_global_country_rank ::
  "(string \<Rightarrow> string) \<Rightarrow> user \<Rightarrow> user list \<Rightarrow> py_error + rank_stats" where
  "get_user_global_country_rank lower user_info rated_users =
     (let total_users = length rated_users;
          country_users = filter (\<lambda>u. user.country u = user.country user_info) rated_users
      in case rank_loop lower (handle user_info) rated_users 0 of
           Inl e \<Rightarrow> Inl e
         | Inr g_rank \<Rightarrow>
        (case rank_loop lower (handle user_info) country_users 0 of
           Inl e \<Rightarrow> Inl e
         | Inr c_rank \<Rightarrow>
        (case percentile g_rank total_users of
           Inl e \<Rightarrow> Inl e
         | Inr g_percentile \<Rightarrow>
        (case percentile c_rank (length country_users) of
           Inl e \<Rightarrow> Inl e
         | Inr c_percentile \<Rightarrow>
             Inr \<lparr>global_rank = g_rank, global_percentile = g_percentile,
                  country_rank = c_rank, country_percentile = c_percentile,
                  country = user.country user_info\<rparr>))))"

section \<open>Example inputs\<close>

text \<open>The submission scenario of the specification's testable properties.\<close>

definition scenario_submissions :: "submission list" where
  "scenario_submissions =
     [\<lparr>problem = Some \<lparr>contestId = Some 1, index = Some ''A'', rating = None, tags = None\<rparr>,
       verdict = Some ''OK''\<rparr>,
      \<lparr>problem = Some \<lparr>contestId = Some 1, index = Some ''A'', rating = None, tags = None\<rparr>,
       verdict = Some ''WRONG_ANSWER''\<rparr>,
      \<lparr>problem = Some \<lparr>contestId = Some 2, index = Some ''B'', rating = None, tags = None\<rparr>,
       verdict = Some ''WRONG_ANSWER''\<rparr>]"

text \<open>Two records whose problem lacks \<^verbatim>\<open>contestId\<close>, respectively \<^verbatim>\<open>index\<close>.\<close>

definition keyless_submissions :: "submission list" where
  "keyless_submissions =
     [\<lparr>problem = Some \<lparr>contestId = None, index = Some ''A'', rating = None, tags = None\<rparr>,
       verdict = Some ''OK''\<rparr>,
      \<lparr>problem = Some \<lparr>contestId = Some 7, index = None, rating = None, tags = None\<rparr>,
       verdict = Some ''WRONG_ANSWER''\<rparr>]"

text \<open>A record without a \<^verbatim>\<open>problem\<close> object, after a well-formed one.\<close>

definition problemless_submissions :: "submission list" where
  "problemless_submissions =
     [\<lparr>problem = Some \<lparr>contestId = Some 1, index = Some ''A'', rating = None, tags = None\<rparr>,
       verdict = Some ''OK''\<rparr>,
      \<lparr>problem = None, verdict = Some ''OK''\<rparr>]"

text \<open>Submissions without a verdict, among others.\<close>

definition unjudged_submissions :: "submission list" where
  "unjudged_submissions =
     [\<lparr>problem = Some \<lparr>contestId = Some 4, index = Some ''C'', rating = Some 1200, tags = Some []\<rparr>,
       verdict = None\<rparr>,
      \<lparr>problem = Some \<lparr>contestId = Some 4, index = Some ''C'', rating = Some 1200, tags = Some []\<rparr>,
       verdict = Some ''OK''\<rparr>,
      \<lparr>problem = Some \<lparr>contestId = Some 4, index = Some ''D'', rating = None, tags = Some []\<rparr>,
       verdict = None\<rparr>,
      \<lparr>problem = Some \<lparr>contestId = Some 5, index = Some ''A'', rating = None, tags = Some []\<rparr>,
       verdict = Some ''UNKNOWN''\<rparr>]"

text \<open>One problem accepted twice, then tried once more; a second problem accepted once.\<close>

definition reaccepted_submissions :: "submission list" where
  "reaccepted_submissions =
     [\<lparr>problem = Some \<lparr>contestId = Some 1, index = Some ''A'', rating = Some 800,
                       tags = Some [''math'', ''dp'']\<rparr>,
       verdict = Some ''OK''\<rparr>,
      \<lparr>problem = Some \<lparr>contestId = Some 1, index = Some ''A'', rating = Some 800,
                       tags = Some [''math'', ''dp'']\<rparr>,
       verdict = Some ''OK''\<rparr>,
      \<lparr>problem = Some \<lparr>contestId = Some 1, index = Some ''A'', rating = Some 800,
                       tags = Some [''math'', ''dp'']\<rparr>,
       verdict = Some ''TIME_LIMIT_EXCEEDED''\<rparr>,
      \<lparr>problem = Some \<lparr>contestId = Some 2, index = Some ''B'', rating = None,
                       tags = Some [''dp'']\<rparr>,
       verdict = Some ''OK''\<rparr>]"

text \<open>An accepted submission to a problem that carries the rating 0.\<close>

definition zero_rated_submissions :: "submission list" where
  "zero_rated_submissions =
     [\<lparr>problem = Some \<lparr>contestId = Some 1, index = Some ''A'', rating = Some 0, tags = Some []\<rparr>,
       verdict = Some ''OK''\<rparr>]"

text \<open>
  160 submissions to 160 different problems, the first 23 of them accepted.
\<close>

definition rate_submissions :: "submission list" where
  "rate_submissions =
     map (\<lambda>i. \<lparr>problem = Some \<lparr>contestId = Some (int i), index = Some ''A'',
                                 rating = None, tags = None\<rparr>,
                 verdict = Some (if i < 23 then ''OK'' else ''WRONG_ANSWER'')\<rparr>)
         [0..<160]"

text \<open>The rating-change scenario of the specification's testable properties.\<close>

definition scenario_rating_changes :: "rating_change list" where
  "scenario_rating_changes =
     [\<lparr>contestName = Some ''Div. 2 Round'', rank = Some 500, newRating = Some 1400\<rparr>,
      \<lparr>contestName = Some ''Div. 2 Round 2'', rank = Some 200, newRating = Some 1500\<rparr>]"

text \<open>Four contests of different divisions, and the same contests in another order.\<close>

definition mixed_rating_changes :: "rating_change list" where
  "mixed_rating_changes =
     [\<lparr>contestName = Some ''Round 1 (Div. 1 vs Div. 2)'', rank = Some 900, newRating = Some 1600\<rparr>,
      \<lparr>contestName = Some ''Educational Round'', rank = Some 40, newRating = Some 1710\<rparr>,
      \<lparr>contestName = Some ''Round 2 (Div. 2)'', rank = Some 350, newRating = Some 1650\<rparr>,
      \<lparr>contestName = Some ''Round 3 (Div. 1)'', rank = Some 700, newRating = Some 1580\<rparr>]"

definition mixed_rating_changes_reordered :: "rating_change list" where
  "mixed_rating_changes_reordered =
     [\<lparr>contestName = Some ''Round 2 (Div. 2)'', rank = Some 350, newRating = Some 1650\<rparr>,
      \<lparr>contestName = Some ''Round 3 (Div. 1)'', rank = Some 700, newRating = Some 1580\<rparr>,
      \<lparr>contestName = Some ''Educational Round'', rank = Some 40, newRating = Some 1710\<rparr>,
      \<lparr>contestName = Some ''Round 1 (Div. 1 vs Div. 2)'', rank = Some 900, newRating = Some 1600\<rparr>]"

text \<open>
  For the examples: \<^verbatim>\<open>str.lower()\<close> on strings of ASCII characters, where it
  turns the letters A to Z into a to z and leaves every other character. All handles
  of the examples are such strings.
\<close>

definition ascii_lower :: "string \<Rightarrow> string" where
  "ascii_lower s =
     map (\<lambda>c. case map_of (zip ''ABCDEFGHIJKLMNOPQRSTUVWXYZ''
                                ''abcdefghijklmnopqrstuvwxyz'') c of
                 None \<Rightarrow> c | Some l \<Rightarrow> l) s"

text \<open>A rated-user list of three, and targets that are in it and that are not.\<close>

definition example_rated_users :: "user list" where
  "example_rated_users =
     [\<lparr>handle = Some ''alice'', country = Some ''Norway''\<rparr>,
      \<lparr>handle = Some ''carl'', country = Some ''Chile''\<rparr>,
      \<lparr>handle = Some ''bOB'', country = Some ''Chile''\<rparr>]"

definition listed_user :: user where
  "listed_user = \<lparr>handle = Some ''Bob'', country = Some ''Chile''\<rparr>"

definition unlisted_user :: user where
  "unlisted_user = \<lparr>handle = Some ''Dave'', country = Some ''Chile''\<rparr>"

section \<open>Properties of the float operations\<close>

subsection \<open>The rounding functions\<close>

text \<open>
  \<open>round_half_even\<close> returns a nearest integer, the even one of two; \<open>ilog2\<close> is the
  binary exponent; \<open>fl\<close> is within half a unit in the last place of its argument.
\<close>

lemma log2_nat_lower: "0 < n \<Longrightarrow> 2 ^ log2_nat n \<le> n"
proof (induction n rule: log2_nat.induct)
  case (1 n)
  show ?case
  proof (cases "n < 2")
    case True
    with "1.prems" show ?thesis by (subst log2_nat.simps) simp
  next
    case False
    then have "0 < n div 2" by simp
    with "1.IH" False have "2 ^ log2_nat (n div 2) \<le> n div 2" by simp
    then have "2 * 2 ^ log2_nat (n div 2) \<le> n" by simp
    with False show ?thesis by (subst log2_nat.simps) simp
  qed
qed

lemma log2_nat_upper: "n < 2 ^ Suc (log2_nat n)"
proof (induction n rule: log2_nat.induct)
  case (1 n)
  show ?case
  proof (cases "n < 2")
    case True
    then show ?thesis by (subst log2_nat.simps) simp
  next
    case False
    with "1.IH" have "n div 2 < 2 ^ Suc (log2_nat (n div 2))" by simp
    then have "n < 2 * 2 ^ Suc (log2_nat (n div 2))" by simp
    with False show ?thesis by (subst log2_nat.simps) simp
  qed
qed

lemma round_half_even_cases:
  "round_half_even x = \<lfloor>x\<rfloor> \<or> (round_half_even x = \<lfloor>x\<rfloor> + 1 \<and> of_int \<lfloor>x\<rfloor> < x)"
  by (auto simp: round_half_even_def Let_def)

lemma round_half_even_le: "x \<le> of_int k \<Longrightarrow> round_half_even x \<le> k"
proof -
  assume a: "x \<le> of_int k"
  then have f: "\<lfloor>x\<rfloor> \<le> k" by (simp add: floor_le_iff) 
  from round_half_even_cases [of x] show ?thesis
  proof
    assume "round_half_even x = \<lfloor>x\<rfloor>"
    with f show ?thesis by simp
  next
    assume b: "round_half_even x = \<lfloor>x\<rfloor> + 1 \<and> of_int \<lfloor>x\<rfloor> < x"
    with a have "of_int \<lfloor>x\<rfloor> < (of_int k :: rat)" by simp
    then have "\<lfloor>x\<rfloor> < k" by simp
    with b show ?thesis by simp
  qed
qed

lemma round_half_even_ge: "of_int k \<le> x \<Longrightarrow> k \<le> round_half_even x"
proof -
  assume "of_int k \<le> x"
  then have "k \<le> \<lfloor>x\<rfloor>" by (simp add: le_floor_iff)
  with round_half_even_cases [of x] show ?thesis by auto
qed

lemma round_half_even_nearest: "\<bar>of_int (round_half_even x) - x\<bar> \<le> 1 / 2"
proof -
  have "of_int \<lfloor>x\<rfloor> \<le> x" "x < of_int \<lfloor>x\<rfloor> + 1" by linarith+
  then show ?thesis
    by (auto simp: round_half_even_def Let_def abs_le_iff)
qed

lemma round_half_even_tie:
  "x - of_int \<lfloor>x\<rfloor> = 1 / 2 \<Longrightarrow> even (round_half_even x)"
  by (simp add: round_half_even_def Let_def)

lemma ilog2_bounds:
  assumes "0 < x"
  shows "2 powi ilog2 x \<le> x \<and> x < 2 powi (ilog2 x + 1)"
proof (cases "1 \<le> x")
  case True
  define n where "n = nat \<lfloor>x\<rfloor>"
  from True have n: "0 < n" by (simp add: n_def)
  from True have nx: "of_nat n \<le> x" "x < of_nat n + 1"
    by (simp_all add: n_def) linarith
  have e: "ilog2 x = int (log2_nat n)"
    using True by (simp add: ilog2_def n_def)
  have "(of_nat (2 ^ log2_nat n) :: rat) \<le> of_nat n"
    using log2_nat_lower [OF n] by (simp only: of_nat_le_iff)
  then have "(2::rat) ^ log2_nat n \<le> of_nat n" by simp
  then have lo: "(2::rat) ^ log2_nat n \<le> x" using nx(1) by (rule order_trans)
  have "Suc n \<le> 2 ^ Suc (log2_nat n)" using log2_nat_upper [of n] by simp
  then have "(of_nat (Suc n) :: rat) \<le> of_nat (2 ^ Suc (log2_nat n))"
    by (simp only: of_nat_le_iff)
  then have "(of_nat n :: rat) + 1 \<le> 2 ^ Suc (log2_nat n)" by simp
  with nx(2) have hi: "x < 2 ^ Suc (log2_nat n)" by simp
  have "int (log2_nat n) + 1 = int (Suc (log2_nat n))" by simp
  with lo hi show ?thesis
    unfolding e by (simp only: power_int_of_nat)
next
  case False
  define k where "k = nat (\<lceil>1 / x\<rceil> - 1)"
  define L where "L = log2_nat k"
  from False assms have inv: "1 < 1 / x" by simp
  then have c: "2 \<le> \<lceil>1 / x\<rceil>" by linarith
  then have k: "0 < k" unfolding k_def by linarith
  from c have "0 \<le> \<lceil>1 / x\<rceil> - 1" by linarith
  then have "of_nat (nat (\<lceil>1 / x\<rceil> - 1)) = (of_int (\<lceil>1 / x\<rceil> - 1) :: rat)"
    by (rule of_nat_nat)
  then have kc: "of_nat k = (of_int \<lceil>1 / x\<rceil> :: rat) - 1"
    by (simp add: k_def)
  have up: "1 / x \<le> of_nat k + 1" unfolding kc by simp
  have "of_int \<lceil>1 / x\<rceil> - 1 < 1 / x" by linarith
  then have low: "of_nat k < 1 / x" unfolding kc .
  have e: "ilog2 x = - int (Suc L)"
    using False by (simp add: ilog2_def k_def L_def)
  have "Suc k \<le> 2 ^ Suc L" using log2_nat_upper [of k] by (simp add: L_def)
  then have "(of_nat (Suc k) :: rat) \<le> of_nat (2 ^ Suc L)"
    by (simp only: of_nat_le_iff)
  then have "(of_nat k :: rat) + 1 \<le> 2 ^ Suc L" by simp
  with up have "1 / x \<le> 2 ^ Suc L" by simp
  with assms have "1 \<le> 2 ^ Suc L * x" by (simp add: field_simps)
  then have lo: "1 / 2 ^ Suc L \<le> x" by (simp add: field_simps)
  have "(of_nat (2 ^ L) :: rat) \<le> of_nat k"
    using log2_nat_lower [OF k] by (simp only: of_nat_le_iff L_def)
  then have "(2::rat) ^ L \<le> of_nat k" by simp
  then have "(2::rat) ^ L < 1 / x" using low by (rule le_less_trans)
  with assms have "2 ^ L * x < 1" by (simp add: field_simps)
  then have hi: "x < 1 / 2 ^ L" by (simp add: field_simps)
  have p1: "(2::rat) powi (- int (Suc L)) = 1 / 2 ^ Suc L"
    by (simp only: power_int_minus power_int_of_nat inverse_eq_divide)
  have "- int (Suc L) + 1 = - int L" by simp
  then have p2: "(2::rat) powi (- int (Suc L) + 1) = 1 / 2 ^ L"
    by (simp only: power_int_minus power_int_of_nat inverse_eq_divide)
  from lo hi show ?thesis unfolding e p1 p2 by simp
qed

text \<open>
  Rounding moves a number by at most half a unit in the last place.
\<close>

lemma fl_error:
  "\<bar>fl x - x\<bar> \<le> 2 powi (max (ilog2 \<bar>x\<bar>) (- 1022) - 52) / 2"
proof (cases "x = 0")
  case True
  then show ?thesis by (simp add: fl_def)
next
  case False
  define q :: rat where "q = 2 powi (max (ilog2 \<bar>x\<bar>) (- 1022) - 52)"
  have q: "0 < q" by (simp add: q_def)
  have "fl x - x = (of_int (round_half_even (x / q)) - x / q) * q"
    using False q by (simp add: fl_def Let_def q_def field_simps)
  then have "\<bar>fl x - x\<bar> = \<bar>of_int (round_half_even (x / q)) - x / q\<bar> * q"
    using q by (simp add: abs_mult)
  also have "\<dots> \<le> 1 / 2 * q"
    using round_half_even_nearest [of "x / q"] q by (simp only: mult_le_cancel_right_pos)
  finally show ?thesis by (simp add: q_def)
qed

subsection \<open>Bounds on rounded values\<close>

text \<open>
  Rounding does not cross an integer: a value between 0 and an integer below \<open>2\<^sup>5\<^sup>3\<close>
  stays there.
\<close>

lemma fl_nonneg: "0 \<le> x \<Longrightarrow> 0 \<le> fl x"
proof -
  assume a: "0 \<le> x"
  define q :: rat where "q = 2 powi (max (ilog2 \<bar>x\<bar>) (- 1022) - 52)"
  have q: "0 < q" by (simp add: q_def)
  with a have "of_int 0 \<le> x / q" by simp
  then have "0 \<le> round_half_even (x / q)" by (rule round_half_even_ge)
  with q have "0 \<le> of_int (round_half_even (x / q)) * q" by simp
  then show ?thesis by (simp add: fl_def Let_def q_def)
qed

lemma ilog2_le_52: 
  assumes "x < 2 ^ 53"
  shows "ilog2 x \<le> 52"
proof (cases "1 \<le> x")
  case True
  define n where "n = nat \<lfloor>x\<rfloor>"
  from True have n: "0 < n" by (simp add: n_def)
  have "of_nat n \<le> x" using True by (simp add: n_def)
  with assms have "(of_nat n :: rat) < 2 ^ 53" by simp
  then have "(of_nat n :: rat) < of_nat (2 ^ 53)" by simp
  then have "n < 2 ^ 53" by (simp only: of_nat_less_iff)
  with log2_nat_lower [OF n] have lt: "(2::nat) ^ log2_nat n < 2 ^ 53" by simp
  have "(1::nat) < 2" by simp
  from power_less_imp_less_exp [OF this lt] have "log2_nat n < 53" .
  with True show ?thesis by (simp add: ilog2_def n_def)
next
  case False
  then show ?thesis by (simp add: ilog2_def)
qed

lemma fl_le_int:
  assumes "0 \<le> x" and "x \<le> of_int m" and "x < 2 ^ 53"
  shows "fl x \<le> of_int m"
proof (cases "x = 0")
  case True
  with assms show ?thesis by (simp add: fl_def)
next
  case False
  define e where "e = max (ilog2 \<bar>x\<bar>) (- 1022)"
  define q :: rat where "q = 2 powi (e - 52)"
  from assms have "ilog2 \<bar>x\<bar> \<le> 52" by (simp add: ilog2_le_52)
  then have e: "e \<le> 52" by (simp add: e_def)
  have q: "0 < q" by (simp add: q_def)
  have inv: "1 / q = of_int (2 ^ nat (52 - e))"
    using e by (simp add: q_def power_int_def field_simps)
  have "x / q \<le> of_int m / q" using assms(2) q by (simp add: divide_right_mono)
  also have "of_int m / q = of_int m * (1 / q)" by simp
  also have "\<dots> = of_int (m * 2 ^ nat (52 - e))" unfolding inv by simp
  finally have "round_half_even (x / q) \<le> m * 2 ^ nat (52 - e)"
    by (rule round_half_even_le)
  then have "(of_int (round_half_even (x / q)) :: rat) \<le> of_int (m * 2 ^ nat (52 - e))"
    by (simp only: of_int_le_iff)
  also have "(of_int (m * 2 ^ nat (52 - e)) :: rat) = of_int m * (1 / q)" unfolding inv by simp
  finally have "of_int (round_half_even (x / q)) * q \<le> of_int m * (1 / q) * q"
    using q by (simp only: mult_le_cancel_right_pos)
  also have "\<dots> = of_int m" using q by simp
  finally show ?thesis using False by (simp add: fl_def Let_def q_def e_def)
qed

lemma fl_unit:
  assumes "0 \<le> x" and "x \<le> 1"
  shows "0 \<le> fl x \<and> fl x \<le> 1"
proof -
  from assms have "x \<le> of_int 1" "x < 2 ^ 53" by simp_all
  with assms(1) have "fl x \<le> of_int 1" by (intro fl_le_int)
  with fl_nonneg [OF assms(1)] show ?thesis by simp
qed

lemma fl_percent:
  assumes "0 \<le> x" and "x \<le> 100"
  shows "0 \<le> fl x \<and> fl x \<le> 100"
proof -
  from assms have "x \<le> of_int 100" "x < 2 ^ 53" by simp_all
  with assms(1) have "fl x \<le> of_int 100" by (intro fl_le_int)
  with fl_nonneg [OF assms(1)] show ?thesis by simp
qed

lemma float_of_int_1: "float_of_int 1 = 1"
  by code_simp

lemma float_of_int_100: "float_of_int 100 = 100"
  by code_simp

lemma py_round_2_percent:
  assumes "0 \<le> x" and "x \<le> 100"
  shows "0 \<le> py_round x 2 \<and> py_round x 2 \<le> 100"
proof -
  define z where "z = round_half_even (x * 10 ^ 2)"
  from assms(1) have "of_int 0 \<le> x * 10 ^ 2" by simp
  then have z0: "0 \<le> z" unfolding z_def by (rule round_half_even_ge)
  from assms(2) have "x * 10 ^ 2 \<le> of_int 10000" by simp
  then have z1: "z \<le> 10000" unfolding z_def by (rule round_half_even_le)
  from z0 have "0 \<le> (of_int z :: rat) / 10 ^ 2" by simp
  moreover from z1 have "(of_int z :: rat) \<le> 10000" by (simp add: of_int_le_iff [of z 10000, symmetric] del: of_int_le_iff)
  then have "(of_int z :: rat) / 10 ^ 2 \<le> 100" by simp
  ultimately have "0 \<le> fl (of_int z / 10 ^ 2) \<and> fl (of_int z / 10 ^ 2) \<le> 100"
    by (rule fl_percent)
  then show ?thesis by (simp add: py_round_def z_def)
qed

lemma solving_rate_percent:
  assumes "s \<le> a"
  shows "0 \<le> solving_rate s a \<and> solving_rate s a \<le> 100"
proof (cases "a = 0")
  case True
  then show ?thesis by (simp add: solving_rate_def)
next
  case False
  define d where "d = int_truediv (int s) (int a)"
  from assms False have "0 \<le> (of_int (int s) :: rat) / of_int (int a)"
    "(of_int (int s) :: rat) / of_int (int a) \<le> 1"
    by simp_all
  then have "0 \<le> d \<and> d \<le> 1" unfolding d_def int_truediv_def by (rule fl_unit)
  then have "0 \<le> d * 100" "d * 100 \<le> 100" by simp_all
  then have "0 \<le> fl (d * 100) \<and> fl (d * 100) \<le> 100" by (rule fl_percent)
  then have "0 \<le> py_round (fl (d * 100)) 2 \<and> py_round (fl (d * 100)) 2 \<le> 100"
    by (intro py_round_2_percent) simp_all
  with False show ?thesis
    by (simp add: solving_rate_def float_mul_def float_of_int_100 d_def)
qed

lemma percentile_percent:
  assumes "percentile (Some g) n = Inr (Some p)" and "g \<le> n"
  shows "0 \<le> p \<and> p \<le> 100"
proof -
  from assms(1) have g: "g \<noteq> 0" and n: "n \<noteq> 0"
    by (auto simp: percentile_def split: if_splits)
  define d where "d = int_truediv (int g - 1) (int n)"
  from g assms(2) n have "0 \<le> (of_int (int g - 1) :: rat) / of_int (int n)"
    "(of_int (int g - 1) :: rat) / of_int (int n) \<le> 1"
    by simp_all
  then have "0 \<le> d \<and> d \<le> 1" unfolding d_def int_truediv_def by (rule fl_unit)
  then have "0 \<le> 1 - d" "1 - d \<le> 1" by simp_all
  then have "0 \<le> fl (1 - d) \<and> fl (1 - d) \<le> 1" by (rule fl_unit)
  then have "0 \<le> 100 * fl (1 - d)" "100 * fl (1 - d) \<le> 100" by simp_all
  then have "0 \<le> fl (100 * fl (1 - d)) \<and> fl (100 * fl (1 - d)) \<le> 100" by (rule fl_percent)
  then have "0 \<le> py_round (fl (100 * fl (1 - d))) 2 \<and> py_round (fl (100 * fl (1 - d))) 2 \<le> 100"
    by (intro py_round_2_percent) simp_all
  moreover from assms(1) g n
  have "p = py_round (fl (100 * fl (1 - d))) 2"
    by (simp add: percentile_def float_mul_def float_sub_def float_of_int_100 float_of_int_1 d_def)
  ultimately show ?thesis by simp
qed

section \<open>Properties of calculate_stats\<close>


lemma sum_counter_inc:
  "sum_list (map snd (counter_inc k kvs)) = Suc (sum_list (map snd kvs))"
  by (induction k kvs rule: counter_inc.induct) auto

lemma counter_get_inc:
  "counter_get (counter_inc k kvs) k' =
     (if k' = k then Suc (counter_get kvs k) else counter_get kvs k')"
  by (induction k kvs rule: counter_inc.induct) (auto simp: counter_get_def)

lemma counter_get_fold_inc:
  "counter_get (fold counter_inc ts kvs) t = counter_get kvs t + count_list ts t"
  by (induction ts arbitrary: kvs) (auto simp: counter_get_inc)

lemma stats_body_Inr:
  "(\<exists>st'. stats_body sub st = Inr st') \<longleftrightarrow> problem sub \<noteq> None"
  by (auto simp: stats_body_def Let_def split: option.splits)

lemma stats_body_Inl:
  "stats_body sub st = Inl e \<Longrightarrow> e = KeyError ''problem'' \<and> problem sub = None"
  by (auto simp: stats_body_def Let_def split: option.splits if_splits)

lemma stats_body_sets:
  assumes "stats_body sub st = Inr st'" and "problem sub = Some p"
  shows "attempted_problems' st' = insert (get_problem_id p) (attempted_problems' st)"
    and "contests_participated' st' = insert (contestId p) (contests_participated' st)"
    and "solved_problems' st' =
           (if get_verdict sub = ''OK'' then insert (get_problem_id p) (solved_problems' st)
            else solved_problems' st)"
    and "first_attempt_solved' st' \<subseteq>
           (if get_verdict sub = ''OK'' then insert (get_problem_id p) (first_attempt_solved' st)
            else first_attempt_solved' st)"
  using assms
  by (auto simp: stats_body_def Let_def record_first_def split: if_splits)

lemma stats_body_counts:
  assumes "stats_body sub st = Inr st'" and "problem sub = Some p"
  shows "verdict_counter' st' = counter_inc (get_verdict sub) (verdict_counter' st)"
    and "accepted_count' st' =
           (if get_verdict sub = ''OK'' then Suc (accepted_count' st) else accepted_count' st)"
    and "difficulty_solved' st' =
           (if get_verdict sub = ''OK'' then add_difficulty (rating p) (difficulty_solved' st)
            else difficulty_solved' st)"
    and "topic_solved' st' =
           (if get_verdict sub = ''OK'' then add_topics (tags p) (topic_solved' st)
            else topic_solved' st)"
  using assms
  by (auto simp: stats_body_def Let_def record_first_def split: if_splits)

lemma stats_loop_Inr_iff:
  "(\<exists>st'. stats_loop subs st = Inr st') \<longleftrightarrow> (\<forall>s\<in>set subs. problem s \<noteq> None)"
proof (induction subs arbitrary: st)
  case Nil
  then show ?case by simp
next
  case (Cons sub subs)
  show ?case
  proof (cases "stats_body sub st")
    case (Inl e)
    then have "problem sub = None" by (simp add: stats_body_Inl)
    with Inl show ?thesis by simp
  next
    case (Inr st1)
    then have "problem sub \<noteq> None" using stats_body_Inr by blast
    with Inr Cons.IH [of st1] show ?thesis by simp
  qed
qed

lemma stats_loop_Inl:
  "stats_loop subs st = Inl e \<Longrightarrow> e = KeyError ''problem''"
  by (induction subs arbitrary: st) (auto split: sum.splits dest: stats_body_Inl)

lemma stats_loop_cons:
  assumes "stats_loop (sub # subs) st = Inr st'"
  obtains p st1 where "problem sub = Some p" "stats_body sub st = Inr st1"
    "stats_loop subs st1 = Inr st'"
proof (cases "stats_body sub st")
  case (Inl e)
  with assms show ?thesis by simp
next
  case (Inr st1)
  moreover from Inr obtain p where "problem sub = Some p"
    using stats_body_Inr by blast
  ultimately show ?thesis using assms that by simp
qed

lemma stats_loop_attempted:
  "stats_loop subs st = Inr st' \<Longrightarrow>
   attempted_problems' st' =
     attempted_problems' st \<union> {get_problem_id p | p s. s \<in> set subs \<and> problem s = Some p}"
proof (induction subs arbitrary: st)
  case Nil
  then show ?case by simp
next
  case (Cons sub subs)
  from Cons.prems obtain p st1 where *: "problem sub = Some p"
    "stats_body sub st = Inr st1" "stats_loop subs st1 = Inr st'"
    by (rule stats_loop_cons)
  from Cons.IH [OF *(3)] stats_body_sets(1) [OF *(2) *(1)] *(1)
  show ?case by (auto simp: image_iff)
qed

lemma stats_loop_contests:
  "stats_loop subs st = Inr st' \<Longrightarrow>
   contests_participated' st' =
     contests_participated' st \<union> {contestId p | p s. s \<in> set subs \<and> problem s = Some p}"
proof (induction subs arbitrary: st)
  case Nil
  then show ?case by simp
next
  case (Cons sub subs)
  from Cons.prems obtain p st1 where *: "problem sub = Some p"
    "stats_body sub st = Inr st1" "stats_loop subs st1 = Inr st'"
    by (rule stats_loop_cons)
  from Cons.IH [OF *(3)] stats_body_sets(2) [OF *(2) *(1)] *(1)
  show ?case by (auto simp: image_iff)
qed

lemma stats_loop_solved:
  "stats_loop subs st = Inr st' \<Longrightarrow>
   solved_problems' st' =
     solved_problems' st \<union>
     {get_problem_id p | p s. s \<in> set subs \<and> problem s = Some p \<and> get_verdict s = ''OK''}"
proof (induction subs arbitrary: st)
  case Nil
  then show ?case by simp
next
  case (Cons sub subs)
  from Cons.prems obtain p st1 where *: "problem sub = Some p"
    "stats_body sub st = Inr st1" "stats_loop subs st1 = Inr st'"
    by (rule stats_loop_cons)
  from Cons.IH [OF *(3)] stats_body_sets(3) [OF *(2) *(1)] *(1)
  show ?case by (auto split: if_splits)
qed

lemma stats_loop_first_subset:
  "stats_loop subs st = Inr st' \<Longrightarrow>
   first_attempt_solved' st \<subseteq> solved_problems' st \<Longrightarrow>
   first_attempt_solved' st' \<subseteq> solved_problems' st'"
proof (induction subs arbitrary: st)
  case Nil
  then show ?case by simp
next
  case (Cons sub subs)
  from Cons.prems(1) obtain p st1 where *: "problem sub = Some p"
    "stats_body sub st = Inr st1" "stats_loop subs st1 = Inr st'"
    by (rule stats_loop_cons)
  have "first_attempt_solved' st1 \<subseteq> solved_problems' st1"
    using stats_body_sets(3,4) [OF *(2) *(1)] Cons.prems(2)
    by (auto split: if_splits)
  with Cons.IH [OF *(3)] show ?case .
qed

lemma stats_loop_verdicts:
  "stats_loop subs st = Inr st' \<Longrightarrow>
   counter_get (verdict_counter' st') v =
     counter_get (verdict_counter' st) v + length (filter (\<lambda>s. get_verdict s = v) subs)"
proof (induction subs arbitrary: st)
  case Nil
  then show ?case by simp
next
  case (Cons sub subs)
  from Cons.prems obtain p st1 where *: "problem sub = Some p"
    "stats_body sub st = Inr st1" "stats_loop subs st1 = Inr st'"
    by (rule stats_loop_cons)
  from Cons.IH [OF *(3)] stats_body_counts(1) [OF *(2) *(1)]
  show ?case by (simp add: counter_get_inc)
qed

lemma stats_loop_verdict_sum:
  "stats_loop subs st = Inr st' \<Longrightarrow>
   sum_list (map snd (verdict_counter' st')) =
     sum_list (map snd (verdict_counter' st)) + length subs"
proof (induction subs arbitrary: st)
  case Nil
  then show ?case by simp
next
  case (Cons sub subs)
  from Cons.prems obtain p st1 where *: "problem sub = Some p"
    "stats_body sub st = Inr st1" "stats_loop subs st1 = Inr st'"
    by (rule stats_loop_cons)
  from Cons.IH [OF *(3)] stats_body_counts(1) [OF *(2) *(1)]
  show ?case by (simp add: sum_counter_inc)
qed

lemma stats_loop_accepted:
  "stats_loop subs st = Inr st' \<Longrightarrow>
   accepted_count' st' =
     accepted_count' st + length (filter (\<lambda>s. get_verdict s = ''OK'') subs)"
proof (induction subs arbitrary: st)
  case Nil
  then show ?case by simp
next
  case (Cons sub subs)
  from Cons.prems obtain p st1 where *: "problem sub = Some p"
    "stats_body sub st = Inr st1" "stats_loop subs st1 = Inr st'"
    by (rule stats_loop_cons)
  from Cons.IH [OF *(3)] stats_body_counts(2) [OF *(2) *(1)]
  show ?case by simp
qed

lemma attempts_loop_Inr_iff:
  "(\<exists>pa'. attempts_loop subs pa = Inr pa') \<longleftrightarrow> (\<forall>s\<in>set subs. problem s \<noteq> None)"
  by (induction subs arbitrary: pa) (auto split: option.splits)

lemma calculate_stats_Inr_iff:
  "(\<exists>r. calculate_stats subs = Inr r) \<longleftrightarrow> (\<forall>s\<in>set subs. problem s \<noteq> None)"
proof
  assume "\<exists>r. calculate_stats subs = Inr r"
  then have "\<exists>st. stats_loop subs init_vars = Inr st"
    by (auto simp: calculate_stats_def split: sum.splits)
  then show "\<forall>s\<in>set subs. problem s \<noteq> None"
    by (simp add: stats_loop_Inr_iff)
next
  assume wf: "\<forall>s\<in>set subs. problem s \<noteq> None"
  then obtain st where "stats_loop subs init_vars = Inr st"
    using stats_loop_Inr_iff by blast
  moreover from wf obtain pa where "attempts_loop subs [] = Inr pa"
    using attempts_loop_Inr_iff by blast
  ultimately show "\<exists>r. calculate_stats subs = Inr r"
    by (simp add: calculate_stats_def Let_def)
qed

lemma calculate_stats_Inl:
  "calculate_stats subs = Inl e \<Longrightarrow> e = KeyError ''problem''"
proof -
  assume a: "calculate_stats subs = Inl e"
  show ?thesis
  proof (cases "stats_loop subs init_vars")
    case (Inl e')
    with a stats_loop_Inl [OF Inl] show ?thesis by (simp add: calculate_stats_def)
  next
    case (Inr st)
    then have "\<forall>s\<in>set subs. problem s \<noteq> None"
      using stats_loop_Inr_iff by blast
    then obtain r where "calculate_stats subs = Inr r"
      using calculate_stats_Inr_iff by blast
    with a show ?thesis by simp
  qed
qed

text \<open>What a successful run returns, field by field, from the state of the first loop.\<close>

lemma calculate_stats_InrD:
  assumes "calculate_stats subs = Inr r"
  obtains st where "stats_loop subs init_vars = Inr st"
    and "total_submissions r = length subs"
    and "accepted_count r = accepted_count' st"
    and "unique_attempted r = card (attempted_problems' st)"
    and "unique_solved r = card (solved_problems' st)"
    and "problem_solving_rate r =
           solving_rate (card (solved_problems' st)) (card (attempted_problems' st))"
    and "contests_participated r = card (contests_participated' st)"
    and "first_attempt_solved r = card (first_attempt_solved' st)"
    and "verdict_counter r = verdict_counter' st"
    and "difficulty_solved r = difficulty_solved' st"
    and "topic_solved r = topic_solved' st"
  using assms
  by (auto simp: calculate_stats_def Let_def split: sum.splits)

lemma add_difficulty_get:
  "counter_get (add_difficulty r ds) k =
     counter_get ds k + (if r = Some k \<and> k \<noteq> 0 then 1 else 0)"
  by (auto simp: add_difficulty_def counter_get_inc split: option.splits)

lemma add_topics_get:
  "counter_get (add_topics ts tp) t =
     counter_get tp t + count_list (case ts of None \<Rightarrow> [] | Some l \<Rightarrow> l) t"
  by (simp add: add_topics_def counter_get_fold_inc)

lemma stats_loop_difficulty:
  "stats_loop subs st = Inr st' \<Longrightarrow>
   counter_get (difficulty_solved' st') k =
     counter_get (difficulty_solved' st) k +
     length (filter (\<lambda>s. get_verdict s = ''OK'' \<and> k \<noteq> 0 \<and>
                          (\<exists>p. problem s = Some p \<and> rating p = Some k)) subs)"
proof (induction subs arbitrary: st)
  case Nil
  then show ?case by simp
next
  case (Cons sub subs)
  from Cons.prems obtain p st1 where *: "problem sub = Some p"
    "stats_body sub st = Inr st1" "stats_loop subs st1 = Inr st'"
    by (rule stats_loop_cons)
  from Cons.IH [OF *(3)] stats_body_counts(3) [OF *(2) *(1)] *(1)
  show ?case by (simp add: add_difficulty_get)
qed

lemma stats_loop_topics:
  "stats_loop subs st = Inr st' \<Longrightarrow>
   counter_get (topic_solved' st') t =
     counter_get (topic_solved' st) t +
     count_list (concat (map (\<lambda>s. case problem s of None \<Rightarrow> []
                                   | Some p \<Rightarrow> (case tags p of None \<Rightarrow> [] | Some l \<Rightarrow> l))
                             (filter (\<lambda>s. get_verdict s = ''OK'') subs))) t"
proof (induction subs arbitrary: st)
  case Nil
  then show ?case by simp
next
  case (Cons sub subs)
  from Cons.prems obtain p st1 where *: "problem sub = Some p"
    "stats_body sub st = Inr st1" "stats_loop subs st1 = Inr st'"
    by (rule stats_loop_cons)
  from Cons.IH [OF *(3)] stats_body_counts(4) [OF *(2) *(1)] *(1)
  show ?case by (simp add: add_topics_get)
qed

lemma get_verdict_eq:
  "get_verdict s = v \<longleftrightarrow> verdict s = Some v \<or> (verdict s = None \<and> v = ''UNKNOWN'')"
  by (auto simp: get_verdict_def split: option.splits)

lemma get_verdict_OK: "get_verdict s = ''OK'' \<longleftrightarrow> verdict s = Some ''OK''"
  by (auto simp: get_verdict_def split: option.splits)

lemma counter_get_Nil: "counter_get [] k = 0"
  by (simp add: counter_get_def)

lemma finite_attempted:
  assumes "stats_loop subs init_vars = Inr st"
  shows "finite (attempted_problems' st)"
proof -
  have "attempted_problems' st \<subseteq> (\<lambda>s. get_problem_id (the (problem s))) ` set subs"
    using stats_loop_attempted [OF assms] by (force simp: init_vars_def)
  then show ?thesis by (rule finite_subset) simp
qed

lemma solved_cards_ordered:
  assumes run: "stats_loop subs init_vars = Inr st"
  shows "card (first_attempt_solved' st) \<le> card (solved_problems' st) \<and>
         card (solved_problems' st) \<le> card (attempted_problems' st)"
proof -
  have fin: "finite (attempted_problems' st)"
    using run by (rule finite_attempted)
  have sub1: "solved_problems' st \<subseteq> attempted_problems' st"
    using stats_loop_solved [OF run] stats_loop_attempted [OF run]
    by (auto simp: init_vars_def)
  have sub2: "first_attempt_solved' st \<subseteq> solved_problems' st"
    using stats_loop_first_subset [OF run] by (simp add: init_vars_def)
  from fin sub1 have "finite (solved_problems' st)"
    by (rule rev_finite_subset)
  with sub2 have "card (first_attempt_solved' st) \<le> card (solved_problems' st)"
    by (simp add: card_mono)
  moreover from fin sub1 have "card (solved_problems' st) \<le> card (attempted_problems' st)"
    by (simp add: card_mono)
  ultimately show ?thesis by simp
qed

subsection \<open>The example runs\<close>

text \<open>
  The value \<open>2345390243441541 / 70368744177664\<close> is the float that Python prints
  as \<^verbatim>\<open>33.33\<close>.
\<close>

lemma scenario_run:
  "calculate_stats scenario_submissions =
     Inr \<lparr>total_submissions = 3, accepted_count = 1, wrong_answer_count = 2,
          unique_attempted = 2, unique_solved = 1, problem_solving_rate = 50,
          contests_participated = 2, first_attempt_solved = 1,
          verdict_counter = [(''OK'', 1), (''WRONG_ANSWER'', 2)],
          most_attempted_problems = [''1-A''], max_attempts = 2,
          difficulty_solved = [], topic_solved = []\<rparr>"
  by code_simp

lemma keyless_run:
  "calculate_stats keyless_submissions =
     Inr \<lparr>total_submissions = 2, accepted_count = 1, wrong_answer_count = 1,
          unique_attempted = 2, unique_solved = 1, problem_solving_rate = 50,
          contests_participated = 2, first_attempt_solved = 1,
          verdict_counter = [(''OK'', 1), (''WRONG_ANSWER'', 1)],
          most_attempted_problems = [''None-A'', ''7-None''], max_attempts = 1,
          difficulty_solved = [], topic_solved = []\<rparr>"
  by code_simp

lemma unjudged_run:
  "calculate_stats unjudged_submissions =
     Inr \<lparr>total_submissions = 4, accepted_count = 1, wrong_answer_count = 0,
          unique_attempted = 3, unique_solved = 1,
          problem_solving_rate = 2345390243441541 / 70368744177664,
          contests_participated = 2, first_attempt_solved = 0,
          verdict_counter = [(''UNKNOWN'', 3), (''OK'', 1)],
          most_attempted_problems = [''4-C''], max_attempts = 2,
          difficulty_solved = [(1200, 1)], topic_solved = []\<rparr>"
  by code_simp

lemma reaccepted_run:
  "calculate_stats reaccepted_submissions =
     Inr \<lparr>total_submissions = 4, accepted_count = 3, wrong_answer_count = 0,
          unique_attempted = 2, unique_solved = 2, problem_solving_rate = 100,
          contests_participated = 2, first_attempt_solved = 2,
          verdict_counter = [(''OK'', 3), (''TIME_LIMIT_EXCEEDED'', 1)],
          most_attempted_problems = [''1-A''], max_attempts = 3,
          difficulty_solved = [(800, 2)],
          topic_solved = [(''math'', 2), (''dp'', 3)]\<rparr>"
  by code_simp

lemma problemless_run:
  "calculate_stats problemless_submissions = Inl (KeyError ''problem'')"
  by code_simp

lemma zero_rated_run:
  "calculate_stats zero_rated_submissions =
     Inr \<lparr>total_submissions = 1, accepted_count = 1, wrong_answer_count = 0,
          unique_attempted = 1, unique_solved = 1, problem_solving_rate = 100,
          contests_participated = 1, first_attempt_solved = 1,
          verdict_counter = [(''OK'', 1)],
          most_attempted_problems = [''1-A''], max_attempts = 1,
          difficulty_solved = [], topic_solved = []\<rparr>"
  by code_simp

subsection \<open>Missing problem keys\<close>

text \<open>
  Claim C1 as stated fails: on a list whose records lack \<^verbatim>\<open>contestId\<close> or
  \<^verbatim>\<open>index\<close>, \<^verbatim>\<open>calculate_stats\<close> raises nothing. It returns statistics in which
  \<^verbatim>\<open>None\<close> stands for the missing part of the problem key, as the formatted keys
  \<^verbatim>\<open>None-A\<close> and \<^verbatim>\<open>7-None\<close> show.
\<close>

theorem missing_key_is_substituted:
  "calculate_stats
     [\<lparr>problem = Some \<lparr>contestId = None, index = Some ''A'', rating = None, tags = None\<rparr>,
       verdict = Some ''OK''\<rparr>,
      \<lparr>problem = Some \<lparr>contestId = Some 7, index = None, rating = None, tags = None\<rparr>,
       verdict = Some ''WRONG_ANSWER''\<rparr>] =
   Inr \<lparr>total_submissions = 2, accepted_count = 1, wrong_answer_count = 1,
        unique_attempted = 2, unique_solved = 1, problem_solving_rate = 50,
        contests_participated = 2, first_attempt_solved = 1,
        verdict_counter = [(''OK'', 1), (''WRONG_ANSWER'', 1)],
        most_attempted_problems = [''None-A'', ''7-None''], max_attempts = 1,
        difficulty_solved = [], topic_solved = []\<rparr>"
  by code_simp

text \<open>
  Claim C1, amended: \<^verbatim>\<open>calculate_stats\<close> does not validate \<^verbatim>\<open>contestId\<close> or
  \<^verbatim>\<open>index\<close>. It succeeds on every list in which each record has a \<^verbatim>\<open>problem\<close>
  object, whether or not that object carries \<^verbatim>\<open>contestId\<close> and \<^verbatim>\<open>index\<close>; a
  missing one is \<^verbatim>\<open>None\<close> in the problem key, and the keys so formed are what
  \<^verbatim>\<open>unique_attempted\<close> counts. It fails, with \<^verbatim>\<open>KeyError('problem')\<close>, exactly
  when some record has no \<^verbatim>\<open>problem\<close> object.
\<close>

theorem calculate_stats_fails_only_without_problem:
  "((\<forall>s\<in>set subs. problem s \<noteq> None) \<longrightarrow>
      (\<exists>r. calculate_stats subs = Inr r \<and>
           unique_attempted r =
             card {(contestId p, index p) | p s. s \<in> set subs \<and> problem s = Some p})) \<and>
   ((\<exists>s\<in>set subs. problem s = None) \<longrightarrow>
      calculate_stats subs = Inl (KeyError ''problem''))"
proof (intro conjI impI)
  assume "\<forall>s\<in>set subs. problem s \<noteq> None"
  then obtain r where r: "calculate_stats subs = Inr r"
    using calculate_stats_Inr_iff by blast
  then obtain st where run: "stats_loop subs init_vars = Inr st"
    and att: "unique_attempted r = card (attempted_problems' st)"
    by (rule calculate_stats_InrD)
  have "attempted_problems' st =
      {(contestId p, index p) | p s. s \<in> set subs \<and> problem s = Some p}"
    using stats_loop_attempted [OF run] by (simp add: init_vars_def get_problem_id_def)
  with r att show "\<exists>r. calculate_stats subs = Inr r \<and>
      unique_attempted r =
        card {(contestId p, index p) | p s. s \<in> set subs \<and> problem s = Some p}"
    by simp
next
  assume "\<exists>s\<in>set subs. problem s = None"
  then have "\<not> (\<exists>r. calculate_stats subs = Inr r)"
    by (simp add: calculate_stats_Inr_iff)
  then obtain e where "calculate_stats subs = Inl e"
    by (cases "calculate_stats subs") auto
  then show "calculate_stats subs = Inl (KeyError ''problem'')"
    using calculate_stats_Inl by blast
qed

text \<open>
  Both cases at concrete inputs: the two records with a missing key are counted as
  two attempted problems, and the list with a record without \<^verbatim>\<open>problem\<close> fails.
\<close>

theorem calculate_stats_fails_only_without_problem_witness:
  "(\<exists>r. calculate_stats keyless_submissions = Inr r \<and> unique_attempted r = 2 \<and>
        card {(contestId p, index p) | p s.
                s \<in> set keyless_submissions \<and> problem s = Some p} = 2) \<and>
   calculate_stats problemless_submissions = Inl (KeyError ''problem'')"
proof -
  have "\<forall>s\<in>set keyless_submissions. problem s \<noteq> None"
    by (simp add: keyless_submissions_def)
  with calculate_stats_fails_only_without_problem [of keyless_submissions]
  obtain r where r: "calculate_stats keyless_submissions = Inr r"
    "unique_attempted r =
       card {(contestId p, index p) | p s.
               s \<in> set keyless_submissions \<and> problem s = Some p}"
    by blast
  from r(1) keyless_run have "unique_attempted r = 2"
    by auto
  with r have first: "\<exists>r. calculate_stats keyless_submissions = Inr r \<and>
      unique_attempted r = 2 \<and>
      card {(contestId p, index p) | p s.
              s \<in> set keyless_submissions \<and> problem s = Some p} = 2"
    by auto
  have "\<exists>s\<in>set problemless_submissions. problem s = None"
    by (simp add: problemless_submissions_def)
  with calculate_stats_fails_only_without_problem [of problemless_submissions]
  have "calculate_stats problemless_submissions = Inl (KeyError ''problem'')"
    by blast
  with first show ?thesis by blast
qed


subsection \<open>The verdict tally\<close>

lemma verdict_tally_of_result:
  assumes "calculate_stats subs = Inr r"
  shows "total_submissions r = length subs \<and>
         sum_list (map snd (verdict_counter r)) = total_submissions r \<and>
         (\<forall>v. counter_get (verdict_counter r) v =
               length (filter (\<lambda>s. verdict s = Some v \<or> (verdict s = None \<and> v = ''UNKNOWN''))
                         subs)) \<and>
         accepted_count r = length (filter (\<lambda>s. verdict s = Some ''OK'') subs) \<and>
         0 \<le> accepted_count r \<and> accepted_count r \<le> total_submissions r"
proof -
  from assms obtain st where run: "stats_loop subs init_vars = Inr st"
    and r: "total_submissions r = length subs" "accepted_count r = accepted_count' st"
      "verdict_counter r = verdict_counter' st"
    by (rule calculate_stats_InrD)
  have "sum_list (map snd (verdict_counter r)) = length subs"
    using stats_loop_verdict_sum [OF run] by (simp add: r init_vars_def)
  moreover have "counter_get (verdict_counter r) v =
      length (filter (\<lambda>s. verdict s = Some v \<or> (verdict s = None \<and> v = ''UNKNOWN'')) subs)" for v
    using stats_loop_verdicts [OF run, of v]
    by (simp add: r init_vars_def counter_get_Nil get_verdict_eq)
  moreover have "accepted_count r = length (filter (\<lambda>s. verdict s = Some ''OK'') subs)"
    using stats_loop_accepted [OF run] by (simp add: r init_vars_def get_verdict_OK)
  ultimately show ?thesis by (simp add: r)
qed

text \<open>
  Claim C2: the verdict tally counts each submission exactly once. On every list of
  submissions that have a \<^verbatim>\<open>problem\<close> object, \<^verbatim>\<open>calculate_stats\<close> returns a
  record in which the values of \<^verbatim>\<open>verdict_counter\<close> sum to
  \<^verbatim>\<open>total_submissions\<close>, the number of submissions; the count of a verdict \<open>v\<close>
  is the number of submissions with that verdict, where a submission without a
  verdict counts for the sentinel \<^verbatim>\<open>UNKNOWN\<close>; and \<^verbatim>\<open>accepted_count\<close>, the number
  of submissions with verdict \<^verbatim>\<open>OK\<close>, lies between 0 and \<^verbatim>\<open>total_submissions\<close>.
\<close>

theorem verdict_tally_counts_each_submission_once:
  assumes "\<forall>s\<in>set subs. problem s \<noteq> None"
  shows "\<exists>r. calculate_stats subs = Inr r \<and>
           total_submissions r = length subs \<and>
           sum_list (map snd (verdict_counter r)) = total_submissions r \<and>
           (\<forall>v. counter_get (verdict_counter r) v =
                 length (filter (\<lambda>s. verdict s = Some v \<or> (verdict s = None \<and> v = ''UNKNOWN''))
                           subs)) \<and>
           accepted_count r = length (filter (\<lambda>s. verdict s = Some ''OK'') subs) \<and>
           0 \<le> accepted_count r \<and> accepted_count r \<le> total_submissions r"
proof -
  from assms obtain r where r: "calculate_stats subs = Inr r"
    using calculate_stats_Inr_iff by blast
  from r verdict_tally_of_result [OF r] show ?thesis by blast
qed

text \<open>
  Four submissions, two of them without a verdict and one with the verdict
  \<^verbatim>\<open>UNKNOWN\<close> itself: the sentinel counts three.
\<close>

theorem verdict_tally_counts_each_submission_once_witness:
  "calculate_stats unjudged_submissions =
     Inr \<lparr>total_submissions = 4, accepted_count = 1, wrong_answer_count = 0,
          unique_attempted = 3, unique_solved = 1,
          problem_solving_rate = 2345390243441541 / 70368744177664,
          contests_participated = 2, first_attempt_solved = 0,
          verdict_counter = [(''UNKNOWN'', 3), (''OK'', 1)],
          most_attempted_problems = [''4-C''], max_attempts = 2,
          difficulty_solved = [(1200, 1)], topic_solved = []\<rparr> \<and>
   sum_list (map snd [(''UNKNOWN'', 3), (''OK'', 1::nat)]) = 4 \<and>
   counter_get [(''UNKNOWN'', 3), (''OK'', 1)] ''UNKNOWN'' =
     length (filter (\<lambda>s. verdict s = Some ''UNKNOWN'' \<or> verdict s = None) unjudged_submissions) \<and>
   length (filter (\<lambda>s. verdict s = Some ''UNKNOWN'' \<or> verdict s = None) unjudged_submissions) = 3 \<and>
   length (filter (\<lambda>s. verdict s = Some ''OK'') unjudged_submissions) = 1"
proof -
  have wf: "\<forall>s\<in>set unjudged_submissions. problem s \<noteq> None"
    by (simp add: unjudged_submissions_def)
  from verdict_tally_counts_each_submission_once [OF wf]
  obtain r where r: "calculate_stats unjudged_submissions = Inr r"
    and t: "\<forall>v. counter_get (verdict_counter r) v =
        length (filter (\<lambda>s. verdict s = Some v \<or> (verdict s = None \<and> v = ''UNKNOWN''))
                  unjudged_submissions)"
    by blast
  from r unjudged_run have "verdict_counter r = [(''UNKNOWN'', 3), (''OK'', 1)]"
    by auto
  with t have "counter_get [(''UNKNOWN'', 3), (''OK'', 1)] ''UNKNOWN'' =
      length (filter (\<lambda>s. verdict s = Some ''UNKNOWN'' \<or> verdict s = None) unjudged_submissions)"
    by simp
  moreover have "sum_list (map snd [(''UNKNOWN'', 3), (''OK'', 1::nat)]) = 4"
    by simp
  moreover have
    "length (filter (\<lambda>s. verdict s = Some ''UNKNOWN'' \<or> verdict s = None) unjudged_submissions) = 3"
    "length (filter (\<lambda>s. verdict s = Some ''OK'') unjudged_submissions) = 1"
    by (simp_all add: unjudged_submissions_def)
  ultimately show ?thesis using unjudged_run by simp
qed

subsection \<open>Solved, first-attempt solved and attempted problems\<close>

text \<open>
  Claim C3: \<^verbatim>\<open>first_attempt_solved <= unique_solved <= unique_attempted\<close>. On every
  list of submissions that have a \<^verbatim>\<open>problem\<close> object, \<^verbatim>\<open>calculate_stats\<close> returns
  a record with these inequalities: the set of problems solved at the first
  submission is a subset of the solved problems, which is a subset of the attempted
  problems.
\<close>

theorem solved_counts_ordered:
  assumes "\<forall>s\<in>set subs. problem s \<noteq> None"
  shows "\<exists>r. calculate_stats subs = Inr r \<and>
           first_attempt_solved r \<le> unique_solved r \<and> unique_solved r \<le> unique_attempted r"
proof -
  from assms obtain r where res: "calculate_stats subs = Inr r"
    using calculate_stats_Inr_iff by blast
  then obtain st where run: "stats_loop subs init_vars = Inr st"
    and r: "unique_attempted r = card (attempted_problems' st)"
      "unique_solved r = card (solved_problems' st)"
      "first_attempt_solved r = card (first_attempt_solved' st)"
    by (rule calculate_stats_InrD)
  from run have "first_attempt_solved r \<le> unique_solved r \<and>
      unique_solved r \<le> unique_attempted r"
    unfolding r by (rule solved_cards_ordered)
  with res show ?thesis by blast
qed

text \<open>
  In the example without verdicts the three counts differ: no problem was solved at
  its first submission, one was solved, three were attempted.
\<close>

theorem solved_counts_ordered_witness:
  "calculate_stats unjudged_submissions =
     Inr \<lparr>total_submissions = 4, accepted_count = 1, wrong_answer_count = 0,
          unique_attempted = 3, unique_solved = 1,
          problem_solving_rate = 2345390243441541 / 70368744177664,
          contests_participated = 2, first_attempt_solved = 0,
          verdict_counter = [(''UNKNOWN'', 3), (''OK'', 1)],
          most_attempted_problems = [''4-C''], max_attempts = 2,
          difficulty_solved = [(1200, 1)], topic_solved = []\<rparr> \<and>
   (0::nat) \<le> 1 \<and> (1::nat) \<le> 3"
proof -
  have wf: "\<forall>s\<in>set unjudged_submissions. problem s \<noteq> None"
    by (simp add: unjudged_submissions_def)
  from solved_counts_ordered [OF wf]
  obtain r where r: "calculate_stats unjudged_submissions = Inr r"
    and t: "first_attempt_solved r \<le> unique_solved r" "unique_solved r \<le> unique_attempted r"
    by blast
  from r unjudged_run have "first_attempt_solved r = 0" "unique_solved r = 1"
    "unique_attempted r = 3"
    by auto
  with t have "(0::nat) \<le> 1 \<and> (1::nat) \<le> 3" by simp
  with unjudged_run show ?thesis by simp
qed

subsection \<open>Difficulty and topic accumulation\<close>

text \<open>
  Claim C5 as stated fails: an accepted submission whose problem carries the rating
  0 increments nothing, since the guard \<^verbatim>\<open>if rating:\<close> is false for 0 as it is
  for a missing rating. After this run \<^verbatim>\<open>difficulty_solved\<close> is empty.
\<close>

theorem zero_rating_is_not_counted:
  "calculate_stats
     [\<lparr>problem = Some \<lparr>contestId = Some 1, index = Some ''A'', rating = Some 0, tags = Some []\<rparr>,
       verdict = Some ''OK''\<rparr>] =
   Inr \<lparr>total_submissions = 1, accepted_count = 1, wrong_answer_count = 0,
        unique_attempted = 1, unique_solved = 1, problem_solving_rate = 100,
        contests_participated = 1, first_attempt_solved = 1,
        verdict_counter = [(''OK'', 1)],
        most_attempted_problems = [''1-A''], max_attempts = 1,
        difficulty_solved = [], topic_solved = []\<rparr>"
  by code_simp

lemma increments_of_result:
  assumes "calculate_stats subs = Inr r"
  shows "(\<forall>k. counter_get (difficulty_solved r) k =
              (if k = 0 then 0
               else length (filter (\<lambda>s. verdict s = Some ''OK'' \<and>
                                         (\<exists>p. problem s = Some p \<and> rating p = Some k)) subs))) \<and>
         (\<forall>t. counter_get (topic_solved r) t =
              count_list (concat (map (\<lambda>s. case problem s of None \<Rightarrow> []
                                    | Some p \<Rightarrow> (case tags p of None \<Rightarrow> [] | Some l \<Rightarrow> l))
                                  (filter (\<lambda>s. verdict s = Some ''OK'') subs))) t)"
proof -
  from assms obtain st where run: "stats_loop subs init_vars = Inr st"
    and r: "difficulty_solved r = difficulty_solved' st" "topic_solved r = topic_solved' st"
    by (rule calculate_stats_InrD)
  have "counter_get (difficulty_solved r) k =
      (if k = 0 then 0
       else length (filter (\<lambda>s. verdict s = Some ''OK'' \<and>
                                 (\<exists>p. problem s = Some p \<and> rating p = Some k)) subs))" for k
    using stats_loop_difficulty [OF run, of k]
    by (simp add: r init_vars_def counter_get_Nil get_verdict_OK)
  moreover have "counter_get (topic_solved r) t =
      count_list (concat (map (\<lambda>s. case problem s of None \<Rightarrow> []
                            | Some p \<Rightarrow> (case tags p of None \<Rightarrow> [] | Some l \<Rightarrow> l))
                          (filter (\<lambda>s. verdict s = Some ''OK'') subs))) t" for t
    using stats_loop_topics [OF run, of t]
    by (simp add: r init_vars_def counter_get_Nil get_verdict_OK)
  ultimately show ?thesis by simp
qed

text \<open>
  Claim C5, amended: on every list of submissions that have a \<^verbatim>\<open>problem\<close> object,
  \<^verbatim>\<open>calculate_stats\<close> returns a record for which the following holds. It has
  incremented \<^verbatim>\<open>difficulty_solved[rating]\<close> once for every submission with verdict
  \<^verbatim>\<open>OK\<close> whose problem carries a nonzero rating (not only the first accepted
  submission per problem), so the count of a rating \<open>k \<noteq> 0\<close> is the number of
  accepted submissions with that rating and the rating 0 is never counted; and it
  has incremented \<^verbatim>\<open>topic_solved[tag]\<close> once per tag of every \<^verbatim>\<open>OK\<close> submission, so
  the count of a tag is its number of occurrences in the tag lists of all accepted
  submissions. A problem accepted several times contributes several increments.
\<close>

theorem accepted_submissions_increment_difficulty_and_topics:
  assumes "\<forall>s\<in>set subs. problem s \<noteq> None"
  shows "\<exists>r. calculate_stats subs = Inr r \<and>
         (\<forall>k. counter_get (difficulty_solved r) k =
              (if k = 0 then 0
               else length (filter (\<lambda>s. verdict s = Some ''OK'' \<and>
                                         (\<exists>p. problem s = Some p \<and> rating p = Some k)) subs))) \<and>
         (\<forall>t. counter_get (topic_solved r) t =
              count_list (concat (map (\<lambda>s. case problem s of None \<Rightarrow> []
                                    | Some p \<Rightarrow> (case tags p of None \<Rightarrow> [] | Some l \<Rightarrow> l))
                                  (filter (\<lambda>s. verdict s = Some ''OK'') subs))) t)"
proof -
  from assms obtain r where r: "calculate_stats subs = Inr r"
    using calculate_stats_Inr_iff by blast
  from r increments_of_result [OF r] show ?thesis by blast
qed

text \<open>
  Problem \<^verbatim>\<open>1-A\<close>, rated 800 and tagged \<^verbatim>\<open>math\<close> and \<^verbatim>\<open>dp\<close>, is accepted
  twice: the rating 800 and the tag \<^verbatim>\<open>math\<close> count 2, the tag \<^verbatim>\<open>dp\<close> counts 3
  with the accepted problem \<^verbatim>\<open>2-B\<close>.
\<close>

theorem accepted_submissions_increment_difficulty_and_topics_witness:
  "calculate_stats reaccepted_submissions =
     Inr \<lparr>total_submissions = 4, accepted_count = 3, wrong_answer_count = 0,
          unique_attempted = 2, unique_solved = 2, problem_solving_rate = 100,
          contests_participated = 2, first_attempt_solved = 2,
          verdict_counter = [(''OK'', 3), (''TIME_LIMIT_EXCEEDED'', 1)],
          most_attempted_problems = [''1-A''], max_attempts = 3,
          difficulty_solved = [(800, 2)],
          topic_solved = [(''math'', 2), (''dp'', 3)]\<rparr> \<and>
   counter_get [(800, 2)] (800::int) =
     length (filter (\<lambda>s. verdict s = Some ''OK'' \<and>
                          (\<exists>p. problem s = Some p \<and> rating p = Some 800))
               reaccepted_submissions) \<and>
   counter_get [(800, 2)] (800::int) = 2 \<and>
   counter_get [(''math'', 2), (''dp'', 3)] ''dp'' =
     count_list (concat (map (\<lambda>s. case problem s of None \<Rightarrow> []
                           | Some p \<Rightarrow> (case tags p of None \<Rightarrow> [] | Some l \<Rightarrow> l))
                         (filter (\<lambda>s. verdict s = Some ''OK'') reaccepted_submissions))) ''dp'' \<and>
   counter_get [(''math'', 2), (''dp'', 3)] ''dp'' = 3"
proof -
  have wf: "\<forall>s\<in>set reaccepted_submissions. problem s \<noteq> None"
    by (simp add: reaccepted_submissions_def)
  from accepted_submissions_increment_difficulty_and_topics [OF wf]
  obtain r where rr: "calculate_stats reaccepted_submissions = Inr r \<and>
    (\<forall>k. counter_get (difficulty_solved r) k =
      (if k = 0 then 0
       else length (filter (\<lambda>s. verdict s = Some ''OK'' \<and>
                                 (\<exists>p. problem s = Some p \<and> rating p = Some k))
                      reaccepted_submissions))) \<and>
    (\<forall>t. counter_get (topic_solved r) t =
      count_list (concat (map (\<lambda>s. case problem s of None \<Rightarrow> []
                            | Some p \<Rightarrow> (case tags p of None \<Rightarrow> [] | Some l \<Rightarrow> l))
                          (filter (\<lambda>s. verdict s = Some ''OK'') reaccepted_submissions))) t)"
    ..
  from rr have r: "calculate_stats reaccepted_submissions = Inr r"
    by (elim conjE)
  from rr have d: "\<forall>k. counter_get (difficulty_solved r) k =
      (if k = 0 then 0
       else length (filter (\<lambda>s. verdict s = Some ''OK'' \<and>
                                 (\<exists>p. problem s = Some p \<and> rating p = Some k))
                      reaccepted_submissions))"
    by (elim conjE)
  from rr have t: "\<forall>t. counter_get (topic_solved r) t =
      count_list (concat (map (\<lambda>s. case problem s of None \<Rightarrow> []
                            | Some p \<Rightarrow> (case tags p of None \<Rightarrow> [] | Some l \<Rightarrow> l))
                          (filter (\<lambda>s. verdict s = Some ''OK'') reaccepted_submissions))) t"
    by (elim conjE)
  from r reaccepted_run have req: "difficulty_solved r = [(800, 2)]"
    "topic_solved r = [(''math'', 2), (''dp'', 3)]"
    by auto
  from d have "counter_get (difficulty_solved r) 800 =
      (if (800::int) = 0 then 0
       else length (filter (\<lambda>s. verdict s = Some ''OK'' \<and>
                                 (\<exists>p. problem s = Some p \<and> rating p = Some 800))
                      reaccepted_submissions))"
    by (rule spec)
  then have "counter_get [(800, 2)] (800::int) =
      length (filter (\<lambda>s. verdict s = Some ''OK'' \<and>
                           (\<exists>p. problem s = Some p \<and> rating p = Some 800))
                reaccepted_submissions)"
    unfolding req by (simp only: ) simp
  moreover from t have "counter_get [(''math'', 2), (''dp'', 3)] ''dp'' =
      count_list (concat (map (\<lambda>s. case problem s of None \<Rightarrow> []
                            | Some p \<Rightarrow> (case tags p of None \<Rightarrow> [] | Some l \<Rightarrow> l))
                          (filter (\<lambda>s. verdict s = Some ''OK'') reaccepted_submissions))) ''dp''"
    unfolding req by (rule spec)
  moreover have "counter_get [(800, 2)] (800::int) = 2"
    "counter_get [(''math'', 2), (''dp'', 3)] ''dp'' = 3"
    by (simp_all add: counter_get_def)
  ultimately show ?thesis using reaccepted_run by simp
qed

subsection \<open>Contests participated\<close>

lemma card_contest_ids:
  fixes ids :: "int option set"
  assumes "finite ids"
  shows "card ids = card {c. Some c \<in> ids} + (if None \<in> ids then 1 else 0)"
proof -
  define A where "A = {c. Some c \<in> ids}"
  have inj: "inj_on Some A" by simp
  have img: "Some ` A = ids - {None}"
  proof (intro set_eqI iffI)
    fix x assume "x \<in> Some ` A"
    then show "x \<in> ids - {None}" by (auto simp: A_def)
  next
    fix x assume x: "x \<in> ids - {None}"
    then obtain c where "x = Some c" by (cases x) auto
    with x show "x \<in> Some ` A" by (auto simp: A_def)
  qed
  have "card A = card (Some ` A)" using inj by (simp add: card_image)
  also have "\<dots> = card (ids - {None})" by (simp only: img)
  finally have a: "card A = card (ids - {None})" .
  show ?thesis
  proof (cases "None \<in> ids")
    case True
    have "card ids = Suc (card (ids - {None}))"
      by (rule card.remove [OF assms True])
    then have "card ids = card A + 1"
      by (simp only: a Suc_eq_plus1)
    moreover have "(if None \<in> ids then 1 else 0) = (1::nat)"
      using True by (rule if_P)
    ultimately show ?thesis by (simp only: A_def)
  next
    case False
    then have "ids - {None} = ids" by blast
    then have "card ids = card A" by (simp only: a)
    moreover have "(if None \<in> ids then 1 else 0) = (0::nat)"
      using False by (rule if_not_P)
    ultimately show ?thesis by (simp only: A_def add_0_right)
  qed
qed

text \<open>
  Claim C10 as stated fails: of these two records one has no \<^verbatim>\<open>contestId\<close> and the
  other has the \<^verbatim>\<open>contestId\<close> 7. There is one distinct \<^verbatim>\<open>contestId\<close> value, and
  \<^verbatim>\<open>contests_participated\<close> is 2, since \<^verbatim>\<open>problem.get('contestId')\<close> puts
  \<^verbatim>\<open>None\<close> into the set for the record without one.
\<close>

theorem missing_contest_id_counts_as_a_contest:
  "calculate_stats keyless_submissions =
     Inr \<lparr>total_submissions = 2, accepted_count = 1, wrong_answer_count = 1,
          unique_attempted = 2, unique_solved = 1, problem_solving_rate = 50,
          contests_participated = 2, first_attempt_solved = 1,
          verdict_counter = [(''OK'', 1), (''WRONG_ANSWER'', 1)],
          most_attempted_problems = [''None-A'', ''7-None''], max_attempts = 1,
          difficulty_solved = [], topic_solved = []\<rparr> \<and>
   {c. \<exists>s\<in>set keyless_submissions. \<exists>p. problem s = Some p \<and> contestId p = Some c} = {7} \<and>
   card {c. \<exists>s\<in>set keyless_submissions. \<exists>p. problem s = Some p \<and> contestId p = Some c} = 1"
proof -
  have "{c. \<exists>s\<in>set keyless_submissions. \<exists>p. problem s = Some p \<and> contestId p = Some c} = {7}"
    by (auto simp: keyless_submissions_def)
  with keyless_run show ?thesis by simp
qed

text \<open>
  Claim C10, amended: on every list of submissions that have a \<^verbatim>\<open>problem\<close> object,
  \<^verbatim>\<open>calculate_stats\<close> returns a record with a field \<^verbatim>\<open>contests_participated\<close> (not
  documented in the specification) equal to the number of distinct values of
  \<^verbatim>\<open>problem.get('contestId')\<close> across all submissions, where a missing
  \<^verbatim>\<open>contestId\<close> is the value \<^verbatim>\<open>None\<close>: it is the number of distinct \<^verbatim>\<open>contestId\<close>
  values when every record carries one, and that number plus one when some record
  does not. This count is at most \<^verbatim>\<open>unique_attempted\<close>.
\<close>

theorem contests_participated_counts_contest_ids:
  assumes "\<forall>s\<in>set subs. problem s \<noteq> None"
  shows "\<exists>r. calculate_stats subs = Inr r \<and>
           contests_participated r =
             card {contestId p | p s. s \<in> set subs \<and> problem s = Some p} \<and>
           ((\<forall>s\<in>set subs. \<forall>p. problem s = Some p \<longrightarrow> contestId p \<noteq> None) \<longrightarrow>
              contests_participated r =
                card {c. \<exists>s\<in>set subs. \<exists>p. problem s = Some p \<and> contestId p = Some c}) \<and>
           ((\<exists>s\<in>set subs. \<exists>p. problem s = Some p \<and> contestId p = None) \<longrightarrow>
              contests_participated r =
                card {c. \<exists>s\<in>set subs. \<exists>p. problem s = Some p \<and> contestId p = Some c} + 1) \<and>
           contests_participated r \<le> unique_attempted r"
proof -
  from assms obtain r where res: "calculate_stats subs = Inr r"
    using calculate_stats_Inr_iff by blast
  then obtain st where run: "stats_loop subs init_vars = Inr st"
    and r: "unique_attempted r = card (attempted_problems' st)"
      "contests_participated r = card (contests_participated' st)"
    by (rule calculate_stats_InrD)
  define ids where
    "ids = {c. \<exists>s\<in>set subs. \<exists>p. problem s = Some p \<and> contestId p = c}"
  have ids_eq: "{contestId p | p s. s \<in> set subs \<and> problem s = Some p} = ids"
    unfolding ids_def by blast
  have con: "contests_participated' st = ids"
    unfolding ids_eq [symmetric] using stats_loop_contests [OF run]
    by (simp add: init_vars_def)
  have "attempted_problems' st =
      {get_problem_id p | p s. s \<in> set subs \<and> problem s = Some p}"
    using stats_loop_attempted [OF run] by (simp add: init_vars_def)
  then have img: "ids = fst ` attempted_problems' st"
    unfolding ids_def by (force simp: get_problem_id_def)
  have fin: "finite (attempted_problems' st)"
    using run by (rule finite_attempted)
  then have fin_ids: "finite ids" unfolding img by simp
  from fin have le: "card ids \<le> card (attempted_problems' st)"
    unfolding img by (rule card_image_le)
  have some: "{c. Some c \<in> ids} =
      {c. \<exists>s\<in>set subs. \<exists>p. problem s = Some p \<and> contestId p = Some c}"
    unfolding ids_def by simp
  have none: "None \<in> ids \<longleftrightarrow> (\<exists>s\<in>set subs. \<exists>p. problem s = Some p \<and> contestId p = None)"
    unfolding ids_def by simp
  from card_contest_ids [OF fin_ids] have c: "card ids =
      card {c. \<exists>s\<in>set subs. \<exists>p. problem s = Some p \<and> contestId p = Some c} +
      (if \<exists>s\<in>set subs. \<exists>p. problem s = Some p \<and> contestId p = None then 1 else 0)"
    unfolding some none .
  have all: "\<not> (\<exists>s\<in>set subs. \<exists>p. problem s = Some p \<and> contestId p = None)"
    if "\<forall>s\<in>set subs. \<forall>p. problem s = Some p \<longrightarrow> contestId p \<noteq> None"
    using that by blast
  have cp: "contests_participated r = card ids" by (simp add: r con)
  have a1: "contests_participated r =
      card {contestId p | p s. s \<in> set subs \<and> problem s = Some p}"
    unfolding ids_eq by (rule cp)
  have a2: "(\<forall>s\<in>set subs. \<forall>p. problem s = Some p \<longrightarrow> contestId p \<noteq> None) \<longrightarrow>
      contests_participated r =
        card {c. \<exists>s\<in>set subs. \<exists>p. problem s = Some p \<and> contestId p = Some c}"
  proof (rule impI)
    assume "\<forall>s\<in>set subs. \<forall>p. problem s = Some p \<longrightarrow> contestId p \<noteq> None"
    then have "\<not> (\<exists>s\<in>set subs. \<exists>p. problem s = Some p \<and> contestId p = None)"
      by (rule all)
    with c show "contests_participated r =
        card {c. \<exists>s\<in>set subs. \<exists>p. problem s = Some p \<and> contestId p = Some c}"
      unfolding cp by (simp only: if_False add_0_right)
  qed
  have a3: "(\<exists>s\<in>set subs. \<exists>p. problem s = Some p \<and> contestId p = None) \<longrightarrow>
      contests_participated r =
        card {c. \<exists>s\<in>set subs. \<exists>p. problem s = Some p \<and> contestId p = Some c} + 1"
  proof (rule impI)
    assume "\<exists>s\<in>set subs. \<exists>p. problem s = Some p \<and> contestId p = None"
    with c show "contests_participated r =
        card {c. \<exists>s\<in>set subs. \<exists>p. problem s = Some p \<and> contestId p = Some c} + 1"
      unfolding cp by (simp only: if_True)
  qed
  have a4: "contests_participated r \<le> unique_attempted r"
    using le by (simp only: cp r)
  show ?thesis
    by (intro exI [of _ r] conjI res a1 a2 a3 a4)
qed

text \<open>
  Each record of the scenario carries a contest id, 1 or 2: the field is 2. Of the
  two records with a missing key, one has the contest id 7 and one has none: the
  field is 1 + 1.
\<close>

theorem contests_participated_counts_contest_ids_witness:
  "calculate_stats scenario_submissions =
     Inr \<lparr>total_submissions = 3, accepted_count = 1, wrong_answer_count = 2,
          unique_attempted = 2, unique_solved = 1, problem_solving_rate = 50,
          contests_participated = 2, first_attempt_solved = 1,
          verdict_counter = [(''OK'', 1), (''WRONG_ANSWER'', 2)],
          most_attempted_problems = [''1-A''], max_attempts = 2,
          difficulty_solved = [], topic_solved = []\<rparr> \<and>
   card {c. \<exists>s\<in>set scenario_submissions. \<exists>p. problem s = Some p \<and> contestId p = Some c} = 2 \<and>
   card {c. \<exists>s\<in>set keyless_submissions. \<exists>p. problem s = Some p \<and> contestId p = Some c} + 1 = 2 \<and>
   (2::nat) \<le> 2"
proof -
  have wf: "\<forall>s\<in>set scenario_submissions. problem s \<noteq> None"
    by (simp add: scenario_submissions_def)
  have ids: "\<forall>s\<in>set scenario_submissions. \<forall>p. problem s = Some p \<longrightarrow> contestId p \<noteq> None"
    by (auto simp: scenario_submissions_def)
  from contests_participated_counts_contest_ids [OF wf]
  obtain r where rr: "calculate_stats scenario_submissions = Inr r \<and>
      contests_participated r =
        card {contestId p | p s. s \<in> set scenario_submissions \<and> problem s = Some p} \<and>
      ((\<forall>s\<in>set scenario_submissions. \<forall>p. problem s = Some p \<longrightarrow> contestId p \<noteq> None) \<longrightarrow>
         contests_participated r =
           card {c. \<exists>s\<in>set scenario_submissions.
                      \<exists>p. problem s = Some p \<and> contestId p = Some c}) \<and>
      ((\<exists>s\<in>set scenario_submissions. \<exists>p. problem s = Some p \<and> contestId p = None) \<longrightarrow>
         contests_participated r =
           card {c. \<exists>s\<in>set scenario_submissions.
                      \<exists>p. problem s = Some p \<and> contestId p = Some c} + 1) \<and>
      contests_participated r \<le> unique_attempted r"
    ..
  from rr have r: "calculate_stats scenario_submissions = Inr r"
    by (elim conjE)
  from rr have "(\<forall>s\<in>set scenario_submissions. \<forall>p. problem s = Some p \<longrightarrow> contestId p \<noteq> None) \<longrightarrow>
      contests_participated r =
        card {c. \<exists>s\<in>set scenario_submissions.
                   \<exists>p. problem s = Some p \<and> contestId p = Some c}"
    by (elim conjE)
  from this ids have c: "contests_participated r =
      card {c. \<exists>s\<in>set scenario_submissions. \<exists>p. problem s = Some p \<and> contestId p = Some c}"
    by (rule mp)
  from r scenario_run have "contests_participated r = 2" by auto
  with c have first:
    "card {c. \<exists>s\<in>set scenario_submissions. \<exists>p. problem s = Some p \<and> contestId p = Some c} = 2"
    by simp
  have wf': "\<forall>s\<in>set keyless_submissions. problem s \<noteq> None"
    by (simp add: keyless_submissions_def)
  have miss: "\<exists>s\<in>set keyless_submissions. \<exists>p. problem s = Some p \<and> contestId p = None"
    by (simp add: keyless_submissions_def)
  from contests_participated_counts_contest_ids [OF wf']
  obtain r' where rr': "calculate_stats keyless_submissions = Inr r' \<and>
      contests_participated r' =
        card {contestId p | p s. s \<in> set keyless_submissions \<and> problem s = Some p} \<and>
      ((\<forall>s\<in>set keyless_submissions. \<forall>p. problem s = Some p \<longrightarrow> contestId p \<noteq> None) \<longrightarrow>
         contests_participated r' =
           card {c. \<exists>s\<in>set keyless_submissions.
                      \<exists>p. problem s = Some p \<and> contestId p = Some c}) \<and>
      ((\<exists>s\<in>set keyless_submissions. \<exists>p. problem s = Some p \<and> contestId p = None) \<longrightarrow>
         contests_participated r' =
           card {c. \<exists>s\<in>set keyless_submissions.
                      \<exists>p. problem s = Some p \<and> contestId p = Some c} + 1) \<and>
      contests_participated r' \<le> unique_attempted r'"
    ..
  from rr' have r': "calculate_stats keyless_submissions = Inr r'"
    by (elim conjE)
  from rr' have "(\<exists>s\<in>set keyless_submissions. \<exists>p. problem s = Some p \<and> contestId p = None) \<longrightarrow>
      contests_participated r' =
        card {c. \<exists>s\<in>set keyless_submissions.
                   \<exists>p. problem s = Some p \<and> contestId p = Some c} + 1"
    by (elim conjE)
  from this miss have c': "contests_participated r' =
      card {c. \<exists>s\<in>set keyless_submissions. \<exists>p. problem s = Some p \<and> contestId p = Some c} + 1"
    by (rule mp)
  from r' keyless_run have "contests_participated r' = 2" by auto
  with c' have
    "card {c. \<exists>s\<in>set keyless_submissions. \<exists>p. problem s = Some p \<and> contestId p = Some c} + 1 = 2"
    by simp
  with first scenario_run show ?thesis by simp
qed

subsection \<open>The solving rate\<close>

lemma solving_rate_23_160: "solving_rate 23 160 = 8089590830664253 / 562949953421312"
  by code_simp

lemma spec_solving_rate_23_160:
  "spec_solving_rate 23 160 = 8095220330198467 / 562949953421312"
  by code_simp

lemma rate_submissions_run:
  obtains r where "calculate_stats rate_submissions = Inr r"
    and "unique_solved r = 23" and "unique_attempted r = 160"
    and "problem_solving_rate r = solving_rate 23 160"
proof -
  have "\<forall>s\<in>set rate_submissions. problem s \<noteq> None"
    by (simp add: rate_submissions_def)
  then obtain r where r: "calculate_stats rate_submissions = Inr r"
    using calculate_stats_Inr_iff by blast
  then obtain st where run: "stats_loop rate_submissions init_vars = Inr st"
    and f: "unique_attempted r = card (attempted_problems' st)"
      "unique_solved r = card (solved_problems' st)"
      "problem_solving_rate r =
         solving_rate (card (solved_problems' st)) (card (attempted_problems' st))"
    by (rule calculate_stats_InrD)
  define key :: "nat \<Rightarrow> problem_id" where "key = (\<lambda>i. (Some (int i), Some ''A''))"
  define P :: "nat \<Rightarrow> problem" where
    "P = (\<lambda>i. \<lparr>contestId = Some (int i), index = Some ''A'', rating = None, tags = None\<rparr>)"
  define mk :: "nat \<Rightarrow> submission" where
    "mk = (\<lambda>i. \<lparr>problem = Some (P i),
                 verdict = Some (if i < 23 then ''OK'' else ''WRONG_ANSWER'')\<rparr>)"
  have subs: "set rate_submissions = mk ` {0..<160}"
    by (simp add: rate_submissions_def mk_def P_def)
  have pm: "problem (mk i) = Some (P i)" for i
    by (simp add: mk_def)
  have gp: "get_problem_id (P i) = key i" for i
    by (simp add: get_problem_id_def P_def key_def)
  have gv: "get_verdict (mk i) = ''OK'' \<longleftrightarrow> i < 23" for i
    by (simp add: mk_def get_verdict_def)
  have inj: "inj_on key A" for A
    by (auto simp: inj_on_def key_def)
  have "{get_problem_id p | p s. s \<in> set rate_submissions \<and> problem s = Some p} =
      key ` {0..<160}"
  proof (intro set_eqI iffI)
    fix k
    assume "k \<in> {get_problem_id p | p s. s \<in> set rate_submissions \<and> problem s = Some p}"
    then obtain p i where "k = get_problem_id p" "i \<in> {0..<160}" "problem (mk i) = Some p"
      unfolding subs by blast
    then show "k \<in> key ` {0..<160}" using pm [of i] gp [of i] by auto
  next
    fix k
    assume "k \<in> key ` {0..<160}"
    then obtain i where "i \<in> {0..<160}" "k = key i" by blast
    then have "k = get_problem_id (P i)" "mk i \<in> set rate_submissions"
      "problem (mk i) = Some (P i)"
      by (simp_all add: gp subs pm)
    then show "k \<in> {get_problem_id p | p s. s \<in> set rate_submissions \<and> problem s = Some p}"
      by blast
  qed
  then have "attempted_problems' st = key ` {0..<160}"
    using stats_loop_attempted [OF run] by (simp add: init_vars_def)
  then have att: "card (attempted_problems' st) = 160"
    by (simp add: card_image inj)
  have "{get_problem_id p | p s. s \<in> set rate_submissions \<and> problem s = Some p \<and>
         get_verdict s = ''OK''} = key ` {0..<23}"
  proof (intro set_eqI iffI)
    fix k
    assume "k \<in> {get_problem_id p | p s. s \<in> set rate_submissions \<and> problem s = Some p \<and>
         get_verdict s = ''OK''}"
    then obtain p i where "k = get_problem_id p" "i \<in> {0..<160}" "problem (mk i) = Some p"
      "get_verdict (mk i) = ''OK''"
      unfolding subs by blast
    then show "k \<in> key ` {0..<23}" using pm [of i] gp [of i] gv [of i] by auto
  next
    fix k
    assume "k \<in> key ` {0..<23}"
    then obtain i where "i \<in> {0..<23}" "k = key i" by blast
    then have "k = get_problem_id (P i)" "mk i \<in> set rate_submissions"
      "problem (mk i) = Some (P i)" "get_verdict (mk i) = ''OK''"
      by (simp_all add: gp subs pm gv)
    then show "k \<in> {get_problem_id p | p s. s \<in> set rate_submissions \<and> problem s = Some p \<and>
         get_verdict s = ''OK''}"
      by blast
  qed
  then have "solved_problems' st = key ` {0..<23}"
    using stats_loop_solved [OF run] by (simp add: init_vars_def)
  then have sol: "card (solved_problems' st) = 23"
    by (simp add: card_image inj)
  from r f att sol that show ?thesis by simp
qed

text \<open>
  Claim C4 as stated fails: the code computes
  \<^verbatim>\<open>round((unique_solved / unique_attempted) * 100, 2)\<close>, where the quotient is
  rounded to a float before the multiplication, and this is not always the float
  \<^verbatim>\<open>round(100 * unique_solved / unique_attempted, 2)\<close>. With 23 solved problems of
  160 attempted, \<^verbatim>\<open>100 * 23 / 160\<close> is exactly 14.375 and rounds to the float
  \<^verbatim>\<open>14.38\<close>, which is \<open>8095220330198467 / 2\<^sup>4\<^sup>9\<close>, while \<^verbatim>\<open>(23 / 160) * 100\<close> is
  the float 14.374999999999998 and rounds to \<^verbatim>\<open>14.37\<close>, which is
  \<open>8089590830664253 / 2\<^sup>4\<^sup>9\<close>.
\<close>

theorem solving_rate_differs_from_specified_formula:
  "(case calculate_stats rate_submissions of
      Inl e \<Rightarrow> False
    | Inr r \<Rightarrow>
        unique_solved r = 23 \<and> unique_attempted r = 160 \<and>
        problem_solving_rate r = 8089590830664253 / 562949953421312 \<and>
        spec_solving_rate (unique_solved r) (unique_attempted r) =
          8095220330198467 / 562949953421312 \<and>
        problem_solving_rate r \<noteq> spec_solving_rate (unique_solved r) (unique_attempted r))"
proof -
  obtain r where "calculate_stats rate_submissions = Inr r"
    and "unique_solved r = 23" and "unique_attempted r = 160"
    and "problem_solving_rate r = solving_rate 23 160"
    by (rule rate_submissions_run)
  then show ?thesis
    by (simp add: solving_rate_23_160 spec_solving_rate_23_160)
qed

lemma solving_rate_of_result:
  assumes "calculate_stats subs = Inr r"
  shows "problem_solving_rate r =
           (if unique_attempted r = 0 then 0
            else py_round (float_mul (int_truediv (int (unique_solved r))
                                                  (int (unique_attempted r)))
                                     (float_of_int 100)) 2) \<and>
         0 \<le> problem_solving_rate r \<and> problem_solving_rate r \<le> 100"
proof -
  from assms obtain st where run: "stats_loop subs init_vars = Inr st"
    and r: "unique_attempted r = card (attempted_problems' st)"
      "unique_solved r = card (solved_problems' st)"
      "problem_solving_rate r =
         solving_rate (card (solved_problems' st)) (card (attempted_problems' st))"
    by (rule calculate_stats_InrD)
  from run have "card (solved_problems' st) \<le> card (attempted_problems' st)"
    using solved_cards_ordered by blast
  then have "0 \<le> problem_solving_rate r \<and> problem_solving_rate r \<le> 100"
    unfolding r by (rule solving_rate_percent)
  moreover have "problem_solving_rate r =
      (if unique_attempted r = 0 then 0
       else py_round (float_mul (int_truediv (int (unique_solved r))
                                             (int (unique_attempted r)))
                                (float_of_int 100)) 2)"
    by (simp add: r solving_rate_def)
  ultimately show ?thesis by simp
qed

text \<open>
  Claim C4, amended: on every list of submissions that have a \<^verbatim>\<open>problem\<close> object,
  \<^verbatim>\<open>calculate_stats\<close> returns a record whose \<^verbatim>\<open>problem_solving_rate\<close> equals
  \<^verbatim>\<open>round((unique_solved / unique_attempted) * 100, 2)\<close>, evaluated in float
  arithmetic in this order, when \<^verbatim>\<open>unique_attempted > 0\<close>; it equals exactly
  \<^verbatim>\<open>0.0\<close> when \<^verbatim>\<open>unique_attempted == 0\<close>; and it always lies in \<open>[0, 100]\<close>.
\<close>

theorem solving_rate_as_computed:
  assumes "\<forall>s\<in>set subs. problem s \<noteq> None"
  shows "\<exists>r. calculate_stats subs = Inr r \<and>
         problem_solving_rate r =
           (if unique_attempted r = 0 then 0
            else py_round (float_mul (int_truediv (int (unique_solved r))
                                                  (int (unique_attempted r)))
                                     (float_of_int 100)) 2) \<and>
         0 \<le> problem_solving_rate r \<and> problem_solving_rate r \<le> 100"
proof -
  from assms obtain r where r: "calculate_stats subs = Inr r"
    using calculate_stats_Inr_iff by blast
  from r solving_rate_of_result [OF r] show ?thesis by blast
qed

text \<open>
  The scenario has one solved problem of two attempted: the rate is 50. The empty
  list has the rate 0.
\<close>

theorem solving_rate_as_computed_witness:
  "calculate_stats scenario_submissions =
     Inr \<lparr>total_submissions = 3, accepted_count = 1, wrong_answer_count = 2,
          unique_attempted = 2, unique_solved = 1, problem_solving_rate = 50,
          contests_participated = 2, first_attempt_solved = 1,
          verdict_counter = [(''OK'', 1), (''WRONG_ANSWER'', 2)],
          most_attempted_problems = [''1-A''], max_attempts = 2,
          difficulty_solved = [], topic_solved = []\<rparr> \<and>
   py_round (float_mul (int_truediv 1 2) (float_of_int 100)) 2 = 50 \<and>
   calculate_stats [] =
     Inr \<lparr>total_submissions = 0, accepted_count = 0, wrong_answer_count = 0,
          unique_attempted = 0, unique_solved = 0, problem_solving_rate = 0,
          contests_participated = 0, first_attempt_solved = 0,
          verdict_counter = [], most_attempted_problems = [], max_attempts = 0,
          difficulty_solved = [], topic_solved = []\<rparr> \<and>
   (0::rat) \<le> 50 \<and> (50::rat) \<le> 100"
proof -
  have empty: "calculate_stats [] =
     Inr \<lparr>total_submissions = 0, accepted_count = 0, wrong_answer_count = 0,
          unique_attempted = 0, unique_solved = 0, problem_solving_rate = 0,
          contests_participated = 0, first_attempt_solved = 0,
          verdict_counter = [], most_attempted_problems = [], max_attempts = 0,
          difficulty_solved = [], topic_solved = []\<rparr>"
    by code_simp
  have wf: "\<forall>s\<in>set scenario_submissions. problem s \<noteq> None"
    by (simp add: scenario_submissions_def)
  from solving_rate_as_computed [OF wf]
  obtain r where r: "calculate_stats scenario_submissions = Inr r"
    and v: "problem_solving_rate r =
      (if unique_attempted r = 0 then 0
       else py_round (float_mul (int_truediv (int (unique_solved r))
                                             (int (unique_attempted r)))
                                (float_of_int 100)) 2)"
    and b: "0 \<le> problem_solving_rate r" "problem_solving_rate r \<le> 100"
    by blast
  from r scenario_run have f: "unique_attempted r = 2" "unique_solved r = 1"
    "problem_solving_rate r = 50"
    by auto
  from v have "py_round (float_mul (int_truediv 1 2) (float_of_int 100)) 2 = 50"
    unfolding f by simp
  moreover from b have "(0::rat) \<le> 50 \<and> (50::rat) \<le> 100"
    unfolding f by simp
  moreover have "\<forall>s\<in>set ([] :: submission list). problem s \<noteq> None" by simp
  from solving_rate_as_computed [OF this] empty
  have "problem_solving_rate
      \<lparr>total_submissions = 0, accepted_count = 0, wrong_answer_count = 0,
       unique_attempted = 0, unique_solved = 0, problem_solving_rate = 0,
       contests_participated = 0, first_attempt_solved = 0,
       verdict_counter = [], most_attempted_problems = [], max_attempts = 0,
       difficulty_solved = [], topic_solved = []\<rparr> = 0"
    by simp
  ultimately show ?thesis using scenario_run empty by simp
qed

section \<open>Properties of analyze_contests\<close>



lemma map_of_dict_set: "map_of (dict_set k v kvs) = (map_of kvs)(k \<mapsto> v)"
  by (induction k v kvs rule: dict_set.induct) (auto simp: fun_eq_iff)

lemma contests_body_Inr_iff:
  "(\<exists>st'. contests_body e st = Inr st') \<longleftrightarrow>
   contestName e \<noteq> None \<and> rank e \<noteq> None \<and> newRating e \<noteq> None"
  by (auto simp: contests_body_def Let_def split: option.splits)

lemma contests_body_step:
  assumes "contests_body e st = Inr st'"
  obtains n rk nr where "contestName e = Some n" "rank e = Some rk" "newRating e = Some nr"
    and "total_contests st' = total_contests st"
    and "contests_skipped st' = contests_skipped st"
    and "highest_rating st' = max (highest_rating st) nr"
    and "best_rank_overall st' =
           Some (case best_rank_overall st of None \<Rightarrow> rk | Some b \<Rightarrow> min b rk)"
    and "map_of (best_rank_by_division st') =
           (map_of (best_rank_by_division st))
             (division n \<mapsto>
                (case map_of (best_rank_by_division st) (division n) of
                   None \<Rightarrow> rk | Some b \<Rightarrow> min b rk))"
proof -
  from assms obtain n rk nr where f: "contestName e = Some n" "rank e = Some rk"
    "newRating e = Some nr"
    using contests_body_Inr_iff [of e st] by auto
  have "total_contests st' = total_contests st" "contests_skipped st' = contests_skipped st"
    "highest_rating st' = max (highest_rating st) nr"
    using assms f by (auto simp: contests_body_def Let_def split: if_splits)
  moreover have "best_rank_overall st' =
      Some (case best_rank_overall st of None \<Rightarrow> rk | Some b \<Rightarrow> min b rk)"
    using assms f by (auto simp: contests_body_def Let_def split: if_splits option.splits)
  moreover have "map_of (best_rank_by_division st') =
      (map_of (best_rank_by_division st))
        (division n \<mapsto>
           (case map_of (best_rank_by_division st) (division n) of
              None \<Rightarrow> rk | Some b \<Rightarrow> min b rk))"
    using assms f
    by (auto simp: contests_body_def Let_def map_of_dict_set fun_eq_iff
        split: if_splits option.splits)
  ultimately show ?thesis using f that by blast
qed

lemma contests_loop_Inr_iff:
  "(\<exists>st'. contests_loop xs st = Inr st') \<longleftrightarrow>
   (\<forall>e\<in>set xs. contestName e \<noteq> None \<and> rank e \<noteq> None \<and> newRating e \<noteq> None)"
proof (induction xs arbitrary: st)
  case Nil
  then show ?case by simp
next
  case (Cons e xs)
  show ?case
  proof (cases "contests_body e st")
    case (Inl err)
    then have "\<not> (contestName e \<noteq> None \<and> rank e \<noteq> None \<and> newRating e \<noteq> None)"
      using contests_body_Inr_iff [of e st] by auto
    with Inl show ?thesis by auto
  next
    case (Inr st1)
    then have "contestName e \<noteq> None \<and> rank e \<noteq> None \<and> newRating e \<noteq> None"
      using contests_body_Inr_iff [of e st] by blast
    with Inr Cons.IH [of st1] show ?thesis by simp
  qed
qed

lemma contests_loop_Inl_perm:
  assumes "set xs = set ys" and "contests_loop xs st = Inl e"
  shows "\<exists>e'. contests_loop ys st' = Inl e'"
proof -
  from assms(2) have "\<not> (\<exists>s. contests_loop xs st = Inr s)" by simp
  then have "\<not> (\<forall>e\<in>set ys. contestName e \<noteq> None \<and> rank e \<noteq> None \<and> newRating e \<noteq> None)"
    unfolding contests_loop_Inr_iff assms(1) .
  then have "\<not> (\<exists>s. contests_loop ys st' = Inr s)"
    unfolding contests_loop_Inr_iff .
  then show ?thesis by (cases "contests_loop ys st'") auto
qed


subsection \<open>The example runs of analyze_contests\<close>

lemma scenario_contests_run:
  "analyze_contests scenario_rating_changes =
     Inr \<lparr>total_contests = 2, contests_skipped = ''Not Available'',
          best_rank_by_division = [(''Div. 2'', 200)], highest_rating = 1500,
          best_rank_overall = Some 200\<rparr>"
  by code_simp

lemma mixed_run:
  "analyze_contests mixed_rating_changes =
     Inr \<lparr>total_contests = 4, contests_skipped = ''Not Available'',
          best_rank_by_division = [(''Div. 1'', 700), (''Other'', 40), (''Div. 2'', 350)],
          highest_rating = 1710, best_rank_overall = Some 40\<rparr>"
  by code_simp

lemma mixed_reordered_run:
  "analyze_contests mixed_rating_changes_reordered =
     Inr \<lparr>total_contests = 4, contests_skipped = ''Not Available'',
          best_rank_by_division = [(''Div. 2'', 350), (''Div. 1'', 700), (''Other'', 40)],
          highest_rating = 1710, best_rank_overall = Some 40\<rparr>"
  by code_simp

subsection \<open>Division classification\<close>



subsection \<open>Order independence\<close>

text \<open>
  Claim C7: the order of the rating changes does not affect the result of
  \<^verbatim>\<open>analyze_contests\<close>. On a permutation of a list it returns the same
  \<^verbatim>\<open>total_contests\<close>, \<^verbatim>\<open>contests_skipped\<close>, \<^verbatim>\<open>best_rank_overall\<close> and
  \<^verbatim>\<open>highest_rating\<close>, and the same \<^verbatim>\<open>best_rank_by_division\<close> as a mapping; and it
  returns on the permutation whenever it returns on the list.
\<close>

theorem analyze_contests_order_independent:
  assumes "mset xs = mset ys"
  shows "case analyze_contests xs of
           Inl e \<Rightarrow> (\<exists>e'. analyze_contests ys = Inl e')
         | Inr r \<Rightarrow>
             (\<exists>r'. analyze_contests ys = Inr r' \<and>
                   total_contests r' = total_contests r \<and>
                   contests_skipped r' = contests_skipped r \<and>
                   map_of (best_rank_by_division r') = map_of (best_rank_by_division r) \<and>
                   best_rank_overall r' = best_rank_overall r \<and>
                   highest_rating r' = highest_rating r)"
proof -
  define F :: "rating_change \<Rightarrow> (string \<rightharpoonup> int) \<times> int \<times> int option
      \<Rightarrow> (string \<rightharpoonup> int) \<times> int \<times> int option"
    where "F = (\<lambda>e (m, h, b).
      (m(division (the (contestName e)) \<mapsto>
           (case m (division (the (contestName e))) of
              None \<Rightarrow> the (rank e) | Some x \<Rightarrow> min x (the (rank e)))),
       max h (the (newRating e)),
       Some (case b of None \<Rightarrow> the (rank e) | Some x \<Rightarrow> min x (the (rank e)))))"
  define A :: "contest_stats \<Rightarrow> (string \<rightharpoonup> int) \<times> int \<times> int option"
    where "A = (\<lambda>st. (map_of (best_rank_by_division st), highest_rating st, best_rank_overall st))"
  have loop: "A st' = fold F zs (A st) \<and> total_contests st' = total_contests st \<and>
      contests_skipped st' = contests_skipped st"
    if "contests_loop zs st = Inr st'" for zs st st'
    using that
  proof (induction zs arbitrary: st)
    case Nil
    then show ?case by simp
  next
    case (Cons e zs)
    from Cons.prems obtain st1 where b: "contests_body e st = Inr st1"
      and l: "contests_loop zs st1 = Inr st'"
      by (cases "contests_body e st") auto
    from b have "A st1 = F e (A st) \<and> total_contests st1 = total_contests st \<and>
        contests_skipped st1 = contests_skipped st"
      by (rule contests_body_step) (auto simp: A_def F_def split: option.splits)
    with Cons.IH [OF l] show ?case by simp
  qed
  have comm: "F a \<circ> F b = F b \<circ> F a" for a b
    by (auto simp: F_def fun_eq_iff min.commute min.left_commute max.left_commute
        split: option.splits)
  have fold_eq: "fold F xs = fold F ys"
    using comm assms by (rule fold_multiset_equiv)
  have set_eq: "set xs = set ys" using assms by (rule mset_eq_setD)
  have len_eq: "length xs = length ys" using assms by (rule mset_eq_length)
  show ?thesis
  proof (cases "analyze_contests xs")
    case (Inl e)
    then have "\<exists>e'. analyze_contests ys = Inl e'"
      unfolding analyze_contests_def using contests_loop_Inl_perm [OF set_eq] by blast
    with Inl show ?thesis by simp
  next
    case (Inr r)
    then have rx: "contests_loop xs \<lparr>total_contests = length xs,
        contests_skipped = ''Not Available'', best_rank_by_division = [],
        highest_rating = 0, best_rank_overall = None\<rparr> = Inr r"
      by (simp add: analyze_contests_def)
    then have "\<forall>e\<in>set ys. contestName e \<noteq> None \<and> rank e \<noteq> None \<and> newRating e \<noteq> None"
      using contests_loop_Inr_iff set_eq by blast
    then obtain r' where ry: "contests_loop ys \<lparr>total_contests = length ys,
        contests_skipped = ''Not Available'', best_rank_by_division = [],
        highest_rating = 0, best_rank_overall = None\<rparr> = Inr r'"
      using contests_loop_Inr_iff by blast
    from loop [OF rx] loop [OF ry] fold_eq len_eq
    have "A r' = A r" "total_contests r' = total_contests r"
      "contests_skipped r' = contests_skipped r"
      by (simp_all add: A_def)
    moreover from ry have "analyze_contests ys = Inr r'"
      by (simp add: analyze_contests_def)
    ultimately show ?thesis using Inr by (simp add: A_def)
  qed
qed

text \<open>
  The four contests in two orders: the dicts list the divisions in different orders
  and are the same mapping.
\<close>

theorem analyze_contests_order_independent_witness:
  "mset mixed_rating_changes = mset mixed_rating_changes_reordered \<and>
   analyze_contests mixed_rating_changes =
     Inr \<lparr>total_contests = 4, contests_skipped = ''Not Available'',
          best_rank_by_division = [(''Div. 1'', 700), (''Other'', 40), (''Div. 2'', 350)],
          highest_rating = 1710, best_rank_overall = Some 40\<rparr> \<and>
   analyze_contests mixed_rating_changes_reordered =
     Inr \<lparr>total_contests = 4, contests_skipped = ''Not Available'',
          best_rank_by_division = [(''Div. 2'', 350), (''Div. 1'', 700), (''Other'', 40)],
          highest_rating = 1710, best_rank_overall = Some 40\<rparr> \<and>
   map_of [(''Div. 2'', 350::int), (''Div. 1'', 700), (''Other'', 40)] =
     map_of [(''Div. 1'', 700), (''Other'', 40), (''Div. 2'', 350)]"
proof -
  have perm: "mset mixed_rating_changes = mset mixed_rating_changes_reordered"
    by (simp add: mixed_rating_changes_def mixed_rating_changes_reordered_def)
  from analyze_contests_order_independent [OF perm]
  have "map_of [(''Div. 2'', 350::int), (''Div. 1'', 700), (''Other'', 40)] =
      map_of [(''Div. 1'', 700), (''Other'', 40), (''Div. 2'', 350)]"
    unfolding mixed_run mixed_reordered_run by simp
  with perm mixed_run mixed_reordered_run show ?thesis by simp
qed

section \<open>Properties of get_user_global_country_rank\<close>

lemma rank_loop_no_match:
  "\<forall>u\<in>set us. \<exists>uh. handle u = Some uh \<and> lower uh \<noteq> lower h \<Longrightarrow>
   rank_loop lower (Some h) us i = Inr None"
  by (induction us arbitrary: i) auto

lemma rank_loop_bounds:
  "rank_loop lower h us i = Inr (Some g) \<Longrightarrow> i < g \<and> g \<le> i + length us"
proof (induction us arbitrary: i)
  case Nil
  then show ?case by simp
next
  case (Cons u us)
  show ?case
  proof (cases "rank_loop lower h us (i + 1) = Inr (Some g)")
    case True
    with Cons.IH [of "i + 1"] show ?thesis by simp
  next
    case False
    with Cons.prems have "g = i + 1"
      by (auto split: option.splits if_splits)
    then show ?thesis by simp
  qed
qed

lemma rank_loop_total:
  "\<forall>u\<in>set us. handle u \<noteq> None \<Longrightarrow> \<exists>res. rank_loop lower (Some h) us i = Inr res"
  by (induction us arbitrary: i) (auto split: option.splits)

lemma rank_loop_position:
  assumes "k < length us" and "handle (us ! k) = Some uh" and "lower uh = lower h"
    and "\<forall>j<k. \<exists>x. handle (us ! j) = Some x \<and> lower x \<noteq> lower h"
  shows "rank_loop lower (Some h) us i = Inr (Some (i + k + 1))"
  using assms
proof (induction us arbitrary: i k)
  case Nil
  then show ?case by simp
next
  case (Cons u us)
  show ?case
  proof (cases k)
    case 0
    with Cons.prems show ?thesis by simp
  next
    case (Suc k')
    from Cons.prems(4) Suc have "\<exists>x. handle ((u # us) ! 0) = Some x \<and> lower x \<noteq> lower h"
      by blast
    then obtain x where x: "handle u = Some x" "lower x \<noteq> lower h" by auto
    have "\<forall>j<k'. \<exists>x. handle (us ! j) = Some x \<and> lower x \<noteq> lower h"
    proof (intro allI impI)
      fix j assume "j < k'"
      then have "Suc j < k" using Suc by simp
      with Cons.prems(4) have "\<exists>x. handle ((u # us) ! Suc j) = Some x \<and> lower x \<noteq> lower h"
        by blast
      then show "\<exists>x. handle (us ! j) = Some x \<and> lower x \<noteq> lower h" by simp
    qed
    moreover from Cons.prems Suc have "k' < length us" "handle (us ! k') = Some uh" by simp_all
    ultimately have "rank_loop lower (Some h) us (i + 1) = Inr (Some (i + 1 + k' + 1))"
      using Cons.prems(3) by (intro Cons.IH)
    with x Suc show ?thesis by simp
  qed
qed

lemma percentile_total:
  assumes "rk = None \<or> (\<exists>g. rk = Some g \<and> g \<le> n)"
  shows "\<exists>p. percentile rk n = Inr p"
  using assms by (auto simp: percentile_def)

subsection \<open>The example runs of get_user_global_country_rank\<close>

text \<open>
  The third of three users is at the percentile \<open>100 * (1 - 2 / 3)\<close>, which rounds to
  the float \<^verbatim>\<open>33.33\<close>.
\<close>

lemma listed_run:
  "get_user_global_country_rank ascii_lower listed_user example_rated_users =
     Inr \<lparr>global_rank = Some 3,
          global_percentile = Some (2345390243441541 / 70368744177664),
          country_rank = Some 2, country_percentile = Some 50,
          country = Some ''Chile''\<rparr>"
  by code_simp

lemma unlisted_run:
  "get_user_global_country_rank ascii_lower unlisted_user example_rated_users =
     Inr \<lparr>global_rank = None, global_percentile = None,
          country_rank = None, country_percentile = None,
          country = Some ''Chile''\<rparr>"
  by code_simp

subsection \<open>No rank without a match\<close>

text \<open>
  Claim C8: when the rated-user list is empty, or when no entry's handle matches the
  target handle case-insensitively, \<^verbatim>\<open>get_user_global_country_rank\<close> raises no
  exception and returns \<^verbatim>\<open>global_rank\<close>, \<^verbatim>\<open>global_percentile\<close>,
  \<^verbatim>\<open>country_rank\<close> and \<^verbatim>\<open>country_percentile\<close> as \<^verbatim>\<open>None\<close>. Two handles match
  when \<^verbatim>\<open>str.lower()\<close> maps them to the same string; the theorem holds whatever
  function \<open>lower\<close> that is.
\<close>

theorem rank_undefined_without_match:
  assumes "rated_users = [] \<or>
           (\<exists>h. handle user_info = Some h \<and>
                (\<forall>u\<in>set rated_users. \<exists>uh. handle u = Some uh \<and> lower uh \<noteq> lower h))"
  shows "get_user_global_country_rank lower user_info rated_users =
           Inr \<lparr>global_rank = None, global_percentile = None,
                country_rank = None, country_percentile = None,
                country = user.country user_info\<rparr>"
  using assms
proof
  assume "rated_users = []"
  then show ?thesis
    by (simp add: get_user_global_country_rank_def percentile_def)
next
  assume "\<exists>h. handle user_info = Some h \<and>
      (\<forall>u\<in>set rated_users. \<exists>uh. handle u = Some uh \<and> lower uh \<noteq> lower h)"
  then obtain h where h: "handle user_info = Some h"
    and no: "\<forall>u\<in>set rated_users. \<exists>uh. handle u = Some uh \<and> lower uh \<noteq> lower h"
    by blast
  from no have "rank_loop lower (Some h) rated_users 0 = Inr None"
    by (rule rank_loop_no_match)
  moreover from no have "rank_loop lower (Some h)
      (filter (\<lambda>u. user.country u = user.country user_info) rated_users) 0 = Inr None"
    by (intro rank_loop_no_match) simp
  ultimately show ?thesis
    by (simp add: get_user_global_country_rank_def percentile_def h)
qed

text \<open>
  The empty list, and a list of three in which \<^verbatim>\<open>Dave\<close> is not.
\<close>

theorem rank_undefined_without_match_witness:
  "get_user_global_country_rank ascii_lower unlisted_user [] =
     Inr \<lparr>global_rank = None, global_percentile = None,
          country_rank = None, country_percentile = None,
          country = Some ''Chile''\<rparr> \<and>
   get_user_global_country_rank ascii_lower unlisted_user example_rated_users =
     Inr \<lparr>global_rank = None, global_percentile = None,
          country_rank = None, country_percentile = None,
          country = Some ''Chile''\<rparr>"
proof -
  have "get_user_global_country_rank ascii_lower unlisted_user [] =
      Inr \<lparr>global_rank = None, global_percentile = None,
           country_rank = None, country_percentile = None,
           country = user.country unlisted_user\<rparr>"
    by (rule rank_undefined_without_match) simp
  moreover have "\<exists>h. handle unlisted_user = Some h \<and>
      (\<forall>u\<in>set example_rated_users.
         \<exists>uh. handle u = Some uh \<and> ascii_lower uh \<noteq> ascii_lower h)"
    by (simp add: unlisted_user_def example_rated_users_def ascii_lower_def)
  then have "get_user_global_country_rank ascii_lower unlisted_user example_rated_users =
      Inr \<lparr>global_rank = None, global_percentile = None,
           country_rank = None, country_percentile = None,
           country = user.country unlisted_user\<rparr>"
    by (intro rank_undefined_without_match disjI2)
  ultimately show ?thesis by (simp add: unlisted_user_def)
qed

subsection \<open>Rank and percentile of a listed user\<close>

text \<open>
  Claim C9: on a rated-user list that contains the target handle exactly once,
  compared case-insensitively, \<^verbatim>\<open>get_user_global_country_rank\<close> returns as
  \<^verbatim>\<open>global_rank\<close> the 1-based position of that entry, between 1 and
  \<^verbatim>\<open>total_users\<close>, and as \<^verbatim>\<open>global_percentile\<close> the float
  \<^verbatim>\<open>round(100 * (1 - (global_rank - 1) / total_users), 2)\<close>, which lies in
  \<open>[0, 100]\<close>. The entry is at index \<open>k\<close>, counted from 0. Two handles match when
  \<^verbatim>\<open>str.lower()\<close> maps them to the same string; the theorem holds whatever function
  \<open>lower\<close> that is.
\<close>

theorem rank_is_position_and_percentile_in_range:
  assumes "handle user_info = Some h"
    and "\<forall>u\<in>set rated_users. handle u \<noteq> None"
    and "k < length rated_users"
    and "handle (rated_users ! k) = Some uh" and "lower uh = lower h"
    and "\<forall>j<length rated_users. j \<noteq> k \<longrightarrow>
           (\<forall>x. handle (rated_users ! j) = Some x \<longrightarrow> lower x \<noteq> lower h)"
  shows "\<exists>r p. get_user_global_country_rank lower user_info rated_users = Inr r \<and>
           global_rank r = Some (k + 1) \<and>
           1 \<le> k + 1 \<and> k + 1 \<le> length rated_users \<and>
           global_percentile r = Some p \<and>
           p = py_round
                 (float_mul (float_of_int 100)
                    (float_sub (float_of_int 1)
                       (int_truediv (int (k + 1) - 1) (int (length rated_users))))) 2 \<and>
           0 \<le> p \<and> p \<le> 100"
proof -
  define country_users where
    "country_users = filter (\<lambda>u. user.country u = user.country user_info) rated_users"
  have before: "\<forall>j<k. \<exists>x. handle (rated_users ! j) = Some x \<and> lower x \<noteq> lower h"
  proof (intro allI impI)
    fix j assume j: "j < k"
    with assms(3) have "rated_users ! j \<in> set rated_users" by simp
    with assms(2) obtain x where x: "handle (rated_users ! j) = Some x" by auto
    moreover from j assms(3) have "j < length rated_users" "j \<noteq> k" by simp_all
    ultimately have "lower x \<noteq> lower h" using assms(6) by blast
    with x show "\<exists>x. handle (rated_users ! j) = Some x \<and> lower x \<noteq> lower h" by blast
  qed
  from assms(3,4,5) before
  have g: "rank_loop lower (Some h) rated_users 0 = Inr (Some (0 + k + 1))"
    by (rule rank_loop_position)
  from assms(2) have "\<forall>u\<in>set country_users. handle u \<noteq> None"
    by (simp add: country_users_def)
  then obtain c_rank where c: "rank_loop lower (Some h) country_users 0 = Inr c_rank"
    using rank_loop_total by blast
  have "c_rank = None \<or> (\<exists>g. c_rank = Some g \<and> g \<le> length country_users)"
  proof (cases c_rank)
    case None
    then show ?thesis by simp
  next
    case (Some cg)
    with c rank_loop_bounds [of lower "Some h" country_users 0 cg] show ?thesis by simp
  qed
  then obtain c_p where cp: "percentile c_rank (length country_users) = Inr c_p"
    using percentile_total by blast
  define p where "p = py_round
      (float_mul (float_of_int 100)
         (float_sub (float_of_int 1)
            (int_truediv (int (k + 1) - 1) (int (length rated_users))))) 2"
  from assms(3) have "length rated_users \<noteq> 0" by auto
  then have gp: "percentile (Some (k + 1)) (length rated_users) = Inr (Some p)"
    by (simp add: percentile_def p_def)
  from assms(3) have "k + 1 \<le> length rated_users" by simp
  with gp have range: "0 \<le> p \<and> p \<le> 100" by (rule percentile_percent)
  have "get_user_global_country_rank lower user_info rated_users =
      Inr \<lparr>global_rank = Some (k + 1), global_percentile = Some p,
           country_rank = c_rank, country_percentile = c_p,
           country = user.country user_info\<rparr>"
    using g c cp gp
    by (simp add: get_user_global_country_rank_def assms(1) Let_def country_users_def)
  with range assms(3) show ?thesis
    unfolding p_def by (intro exI [of _ "\<lparr>global_rank = Some (k + 1), global_percentile = Some p,
           country_rank = c_rank, country_percentile = c_p,
           country = user.country user_info\<rparr>"] exI [of _ p]) (simp add: p_def)
qed

text \<open>
  The handle \<^verbatim>\<open>Bob\<close> is third of three as \<^verbatim>\<open>bOB\<close>: rank 3, percentile 33.33.
\<close>

theorem rank_is_position_and_percentile_in_range_witness:
  "get_user_global_country_rank ascii_lower listed_user example_rated_users =
     Inr \<lparr>global_rank = Some 3,
          global_percentile = Some (2345390243441541 / 70368744177664),
          country_rank = Some 2, country_percentile = Some 50,
          country = Some ''Chile''\<rparr> \<and>
   py_round (float_mul (float_of_int 100)
               (float_sub (float_of_int 1) (int_truediv (int (2 + 1) - 1) 3))) 2 =
     2345390243441541 / 70368744177664 \<and>
   (0::rat) \<le> 2345390243441541 / 70368744177664 \<and>
   (2345390243441541 / 70368744177664 :: rat) \<le> 100"
proof -
  have low: "ascii_lower ''bOB'' = ascii_lower ''Bob''"
    "ascii_lower ''alice'' \<noteq> ascii_lower ''Bob''"
    "ascii_lower ''carl'' \<noteq> ascii_lower ''Bob''"
    by (simp_all add: ascii_lower_def)
  have "handle listed_user = Some ''Bob''"
    by (simp add: listed_user_def)
  moreover have "\<forall>u\<in>set example_rated_users. handle u \<noteq> None"
    by (simp add: example_rated_users_def)
  moreover have "2 < length example_rated_users"
    "handle (example_rated_users ! 2) = Some ''bOB''"
    by (simp_all add: example_rated_users_def)
  moreover have "\<forall>j<length example_rated_users. j \<noteq> 2 \<longrightarrow>
      (\<forall>x. handle (example_rated_users ! j) = Some x \<longrightarrow>
           ascii_lower x \<noteq> ascii_lower ''Bob'')"
    using low by (auto simp: example_rated_users_def nth_Cons' less_Suc_eq numeral_3_eq_3)
  ultimately obtain r p where
    "get_user_global_country_rank ascii_lower listed_user example_rated_users = Inr r"
    "global_percentile r = Some p"
    "p = py_round (float_mul (float_of_int 100)
            (float_sub (float_of_int 1)
               (int_truediv (int (2 + 1) - 1) (int (length example_rated_users))))) 2"
    "0 \<le> p" "p \<le> 100"
    using rank_is_position_and_percentile_in_range
      [where lower = ascii_lower and user_info = listed_user and h = "''Bob''"
         and rated_users = example_rated_users and k = 2 and uh = "''bOB''"] low(1)
    by blast
  moreover have "length example_rated_users = 3"
    by (simp add: example_rated_users_def)
  ultimately show ?thesis using listed_run by auto
qed

end
